theory Spec2Isabelle
  imports Complex_Main
begin

section \<open>Bubble shooter: the simulation core of script.js\<close>

text \<open>
  A shallow embedding of the game logic of \<^verbatim>\<open>script.js\<close>. JavaScript numbers are
  modelled as mathematical reals (the score, a sum of integer constants, as an integer);
  rounding errors of the double format are outside the model. Objects are references
  (natural numbers) into a heap, because the arrays \<^verbatim>\<open>bubbles\<close> and
  \<^verbatim>\<open>gridBubbles\<close> share their elements and the code compares them by identity.
  A call of \<^verbatim>\<open>Math.random()\<close> is an explicit argument \<open>u\<close>, which the
  platform promises to satisfy \<open>0 \<le> u < 1\<close>.
\<close>

subsection \<open>Game configuration\<close>

definition CANVAS_WIDTH :: real where "CANVAS_WIDTH = 400"
definition CANVAS_HEIGHT :: real where "CANVAS_HEIGHT = 600"
definition BUBBLE_RADIUS :: real where "BUBBLE_RADIUS = 20"
definition BUBBLE_DIAMETER :: real where "BUBBLE_DIAMETER = BUBBLE_RADIUS * 2"
definition SHOOT_SPEED :: real where "SHOOT_SPEED = 10"
definition INITIAL_GRID_ROWS :: nat where "INITIAL_GRID_ROWS = 5"
definition GRID_COLS :: nat where "GRID_COLS = 10"
definition CANNON_HEIGHT :: real where "CANNON_HEIGHT = 40"
definition POP_SCORE :: int where "POP_SCORE = 10"
definition BUBBLE_COLORS :: "string list" where
  "BUBBLE_COLORS = [''red'', ''green'', ''blue'', ''yellow'', ''purple'']"

subsection \<open>Utility functions\<close>

text \<open>The remainder operator \<^verbatim>\<open>%\<close> of JavaScript takes the sign of the dividend.\<close>

definition js_rem :: "int \<Rightarrow> int \<Rightarrow> int" where
  "js_rem a b = sgn a * (\<bar>a\<bar> mod \<bar>b\<bar>)"

text \<open>
  \<^verbatim>\<open>getGridPosition(x, y)\<close>. \<^verbatim>\<open>Math.round\<close> rounds halves upwards, which is
  \<^term>\<open>round\<close> of HOL (\<open>round x = \<lfloor>x + 1/2\<rfloor>\<close>).
\<close>

record Snapped =
  s_x :: real
  s_y :: real
  s_row :: int
  s_col :: int

definition getGridPosition :: "real \<Rightarrow> real \<Rightarrow> Snapped" where
  "getGridPosition px py =
     (let colWidth = BUBBLE_DIAMETER;
          rowHeight = BUBBLE_DIAMETER * sqrt 3 / 2;
          row = round ((py - BUBBLE_RADIUS) / rowHeight);
          col = round ((px - BUBBLE_RADIUS - of_int (js_rem row 2) * BUBBLE_RADIUS) / colWidth);
          snappedY = BUBBLE_RADIUS + of_int row * rowHeight;
          snappedX = BUBBLE_RADIUS + of_int col * colWidth + of_int (js_rem row 2) * BUBBLE_RADIUS
      in \<lparr> s_x = snappedX, s_y = snappedY, s_row = row, s_col = col \<rparr>)"

subsection \<open>The Bubble class\<close>

text \<open>The fields of a \<^verbatim>\<open>Bubble\<close> object, prefixed with \<open>b_\<close>.\<close>

record Bubble =
  b_x :: real
  b_y :: real
  b_color :: string
  b_radius :: real
  b_isGrid :: bool
  b_vx :: real
  b_vy :: real
  b_isPopping :: bool
  b_popFrame :: nat

definition newBubble :: "real \<Rightarrow> real \<Rightarrow> string \<Rightarrow> bool \<Rightarrow> Bubble" where
  "newBubble px py c g =
     \<lparr> b_x = px, b_y = py, b_color = c, b_radius = BUBBLE_RADIUS, b_isGrid = g,
       b_vx = 0, b_vy = 0, b_isPopping = False, b_popFrame = 0 \<rparr>"

definition dist_js :: "Bubble \<Rightarrow> Bubble \<Rightarrow> real" where
  "dist_js p1 p2 = sqrt ((b_x p2 - b_x p1)\<^sup>2 + (b_y p2 - b_y p1)\<^sup>2)"

definition isCollidingWith :: "Bubble \<Rightarrow> Bubble \<Rightarrow> bool" where
  "isCollidingWith this other \<longleftrightarrow> dist_js this other < b_radius this + b_radius other - 2"

subsection \<open>Game state\<close>

text \<open>
  The global variables of the script. \<open>heap\<close> maps a reference to the fields of the
  object it denotes and \<open>nextRef\<close> is the next unused reference. The last three fields
  are the platform's side of the script: the handles of the animation-frame callbacks
  that are requested and not yet run or cancelled, the next handle it will give out, and
  the \<^verbatim>\<open>alert\<close> boxes shown so far.
\<close>

datatype Alert = GameOverAlert int | YouWinAlert int

record Game =
  heap :: "nat \<Rightarrow> Bubble"
  nextRef :: nat
  score :: int
  cannonAngle :: real
  bubbles :: "nat list"
  gridBubbles :: "nat list"
  flyingBubble :: "nat option"
  animationFrameId :: nat
  frameRequests :: "nat list"
  nextHandle :: nat
  alerts :: "Alert list"

text \<open>\<^verbatim>\<open>Bubble.getNeighbors()\<close>: the grid bubbles other than \<open>this\<close> that touch it.\<close>

definition getNeighbors :: "Game \<Rightarrow> nat \<Rightarrow> nat list" where
  "getNeighbors s this =
     filter (\<lambda>gridB. gridB \<noteq> this \<and> isCollidingWith (heap s this) (heap s gridB)) (gridBubbles s)"

text \<open>
  \<^verbatim>\<open>getAvailableColorsInGrid()\<close>: a \<^verbatim>\<open>Set\<close> keeps its elements in the order of
  their first insertion, and \<^verbatim>\<open>Array.from\<close> lists them in that order.
\<close>

definition addColor :: "string list \<Rightarrow> string \<Rightarrow> string list" where
  "addColor colors c = (if c \<in> set colors then colors else colors @ [c])"

definition getAvailableColorsInGrid :: "Game \<Rightarrow> string list" where
  "getAvailableColorsInGrid s =
     foldl addColor [] (map (\<lambda>bubble. b_color (heap s bubble)) (gridBubbles s))"

text \<open>\<^verbatim>\<open>getRandomBubbleColor()\<close>, with the value \<open>u\<close> that \<^verbatim>\<open>Math.random()\<close> returns.\<close>

definition getRandomBubbleColor :: "Game \<Rightarrow> real \<Rightarrow> string" where
  "getRandomBubbleColor s u =
     (let availableColors = getAvailableColorsInGrid s in
      if length availableColors > 0
      then availableColors ! nat \<lfloor>u * real (length availableColors)\<rfloor>
      else BUBBLE_COLORS ! nat \<lfloor>u * real (length BUBBLE_COLORS)\<rfloor>)"

subsection \<open>Match detection\<close>

text \<open>
  \<^verbatim>\<open>getConnectedSameColorBubbles(startBubble)\<close>. \<open>visitSameColor\<close> is the inner
  \<^verbatim>\<open>for\<close> loop over the neighbours of the current bubble, \<open>sameColorLoop\<close> the
  \<^verbatim>\<open>while (head < q.length)\<close> loop around it.
\<close>

fun visitSameColor ::
  "Game \<Rightarrow> nat \<Rightarrow> nat list \<Rightarrow> nat list \<times> nat set \<times> nat list \<Rightarrow> nat list \<times> nat set \<times> nat list"
where
  "visitSameColor s startBubble [] acc = acc"
| "visitSameColor s startBubble (neighbor # rest) (q, visited, matching) =
     (if neighbor \<notin> visited \<and> b_color (heap s neighbor) = b_color (heap s startBubble)
      then visitSameColor s startBubble rest
             (q @ [neighbor], insert neighbor visited, matching @ [neighbor])
      else visitSameColor s startBubble rest (q, visited, matching))"

function sameColorLoop ::
  "Game \<Rightarrow> nat \<Rightarrow> nat \<Rightarrow> nat list \<times> nat set \<times> nat list \<Rightarrow> nat list"
where
  "sameColorLoop s startBubble head (q, visited, matching) =
     (if head < length q
      then sameColorLoop s startBubble (head + 1)
             (visitSameColor s startBubble (getNeighbors s (q ! head)) (q, visited, matching))
      else matching)"
  by pat_completeness auto
termination
proof (relation "inv_image (less_than <*lex*> less_than)
    (\<lambda>(s, startBubble, head, q, visited, matching).
       (card (set (gridBubbles s) - visited), length q - head))")
  show "wf (inv_image (less_than <*lex*> less_than)
    (\<lambda>(s, startBubble, head, q, visited, matching).
       (card (set (gridBubbles s) - visited), length q - head)))"
    by (intro wf_inv_image wf_lex_prod wf_less_than)
next
  fix s :: Game and startBubble head :: nat and q matching :: "nat list" and visited :: "nat set"
  assume hd: "head < length q"
  have step: "\<And>acc. set ns \<subseteq> G \<Longrightarrow>
      (case visitSameColor s startBubble ns acc of (q', v', m') \<Rightarrow>
        (case acc of (q0, v0, m0) \<Rightarrow>
           (v' = v0 \<and> q' = q0) \<or> (v0 \<subset> v' \<and> v' - v0 \<subseteq> G)))" for ns G
  proof (induction ns)
    case Nil
    show ?case by (cases acc) simp
  next
    case (Cons n ns)
    obtain q0 v0 m0 where acc: "acc = (q0, v0, m0)" by (cases acc)
    show ?case
    proof (cases "n \<notin> v0 \<and> b_color (heap s n) = b_color (heap s startBubble)")
      case False
      then show ?thesis using Cons.IH [of acc] Cons.prems acc by auto
    next
      case True
      from Cons.IH [of "(q0 @ [n], insert n v0, m0 @ [n])"] Cons.prems
      show ?thesis using True acc by (auto split: prod.splits)
    qed
  qed
  let ?G = "set (gridBubbles s)"
  obtain q' v' m' where r:
    "visitSameColor s startBubble (getNeighbors s (q ! head)) (q, visited, matching) = (q', v', m')"
    by (cases "visitSameColor s startBubble (getNeighbors s (q ! head)) (q, visited, matching)")
  have "set (getNeighbors s (q ! head)) \<subseteq> ?G" by (auto simp: getNeighbors_def)
  from step [OF this, of "(q, visited, matching)"] r
  have alt: "(v' = visited \<and> q' = q) \<or> (visited \<subset> v' \<and> v' - visited \<subseteq> ?G)" by simp
  have "card (?G - v') < card (?G - visited) \<or>
        (card (?G - v') = card (?G - visited) \<and> length q' - (head + 1) < length q - head)"
  proof (cases "v' = visited \<and> q' = q")
    case True
    then show ?thesis using hd by simp
  next
    case False
    with alt have sub: "visited \<subset> v'" and new: "v' - visited \<subseteq> ?G" by auto
    then obtain b where "b \<in> v'" "b \<notin> visited" by auto
    with new have "b \<in> ?G - visited" "b \<notin> ?G - v'" by auto
    moreover have "?G - v' \<subseteq> ?G - visited" using sub by auto
    ultimately have "?G - v' \<subset> ?G - visited" by auto
    then show ?thesis by (simp add: psubset_card_mono)
  qed
  then show "((s, startBubble, head + 1,
        visitSameColor s startBubble (getNeighbors s (q ! head)) (q, visited, matching)),
       (s, startBubble, head, q, visited, matching))
      \<in> inv_image (less_than <*lex*> less_than)
          (\<lambda>(s, startBubble, head, q, visited, matching).
             (card (set (gridBubbles s) - visited), length q - head))"
    by (simp add: r)
qed

declare sameColorLoop.simps [simp del]

definition getConnectedSameColorBubbles :: "Game \<Rightarrow> nat \<Rightarrow> nat list" where
  "getConnectedSameColorBubbles s startBubble =
     sameColorLoop s startBubble 0 ([startBubble], {startBubble}, [startBubble])"

text \<open>
  \<^verbatim>\<open>popBubbles(bubblesToPop)\<close>: \<open>popEach\<close> is its \<^verbatim>\<open>for\<close> loop;
  \<^verbatim>\<open>indexOf\<close> and \<^verbatim>\<open>splice(index, 1)\<close> remove the first occurrence, if there is one.
\<close>

fun popEach :: "nat list \<Rightarrow> Game \<Rightarrow> Game" where
  "popEach [] s = s"
| "popEach (bubble # rest) s =
     popEach rest
       (s\<lparr> heap := (heap s)(bubble := (heap s bubble)\<lparr> b_isPopping := True \<rparr>),
           gridBubbles := remove1 bubble (gridBubbles s) \<rparr>)"

definition popBubbles :: "nat list \<Rightarrow> Game \<Rightarrow> Game" where
  "popBubbles bubblesToPop s =
     popEach bubblesToPop (s\<lparr> score := score s + int (length bubblesToPop) * POP_SCORE \<rparr>)"

definition checkMatches :: "nat \<Rightarrow> Game \<Rightarrow> Game" where
  "checkMatches startBubble s =
     (let matchingBubbles = getConnectedSameColorBubbles s startBubble in
      if length matchingBubbles \<ge> 3 then popBubbles matchingBubbles s else s)"

text \<open>
  The specification side of the match pass: the same-colour edges and the component of
  the seed, and the state after popping a set \<open>C\<close> of bubbles.
\<close>

definition sameColorEdge :: "Game \<Rightarrow> string \<Rightarrow> (nat \<times> nat) set" where
  "sameColorEdge s c =
     {(a, b). b \<in> set (getNeighbors s a) \<and> b_color (heap s b) = c}"

definition sameColorComponent :: "Game \<Rightarrow> nat \<Rightarrow> nat set" where
  "sameColorComponent s startBubble =
     (sameColorEdge s (b_color (heap s startBubble)))\<^sup>* `` {startBubble}"

definition sameColorInv :: "Game \<Rightarrow> nat \<Rightarrow> nat \<Rightarrow> nat list \<times> nat set \<times> nat list \<Rightarrow> bool" where
  "sameColorInv s st head acc = (case acc of (q, v, m) \<Rightarrow>
      m = q \<and> v = set q \<and> distinct q \<and> head \<le> length q \<and> st \<in> set q
      \<and> set q \<subseteq> sameColorComponent s st
      \<and> (\<forall>i<head. sameColorEdge s (b_color (heap s st)) `` {q ! i} \<subseteq> set q))"

definition popped :: "nat set \<Rightarrow> Game \<Rightarrow> Game" where
  "popped C s =
     s\<lparr> heap := (\<lambda>b. if b \<in> C then (heap s b)\<lparr> b_isPopping := True \<rparr> else heap s b),
        gridBubbles := filter (\<lambda>b. b \<notin> C) (gridBubbles s),
        score := score s + int (card C) * POP_SCORE \<rparr>"

subsection \<open>Floating bubbles\<close>

text \<open>
  \<^verbatim>\<open>checkFloatingBubbles()\<close>. \<open>visitAny\<close> is the inner \<^verbatim>\<open>for\<close> loop of the
  traversal, \<open>ceilingLoop\<close> its \<^verbatim>\<open>while\<close> loop, and \<open>dropFloating\<close> the loop
  that walks the grid from its last index down to 0: its second argument is \<open>i + 1\<close>;
  \<^verbatim>\<open>splice(i, 1)\<close> leaves the indices below \<open>i\<close> in place, so every read is in range
  when the walk starts at the length of the grid.
\<close>

fun visitAny :: "nat list \<Rightarrow> nat list \<times> nat set \<Rightarrow> nat list \<times> nat set" where
  "visitAny [] acc = acc"
| "visitAny (neighbor # rest) (q, connectedToCeiling) =
     (if neighbor \<notin> connectedToCeiling
      then visitAny rest (q @ [neighbor], insert neighbor connectedToCeiling)
      else visitAny rest (q, connectedToCeiling))"

function ceilingLoop :: "Game \<Rightarrow> nat \<Rightarrow> nat list \<times> nat set \<Rightarrow> nat set" where
  "ceilingLoop s head (q, connectedToCeiling) =
     (if head < length q
      then ceilingLoop s (head + 1)
             (visitAny (getNeighbors s (q ! head)) (q, connectedToCeiling))
      else connectedToCeiling)"
  by pat_completeness auto
termination
proof (relation "inv_image (less_than <*lex*> less_than)
    (\<lambda>(s, head, q, connected). (card (set (gridBubbles s) - connected), length q - head))")
  show "wf (inv_image (less_than <*lex*> less_than)
    (\<lambda>(s, head, q, connected). (card (set (gridBubbles s) - connected), length q - head)))"
    by (intro wf_inv_image wf_lex_prod wf_less_than)
next
  fix s :: Game and head :: nat and q :: "nat list" and connected :: "nat set"
  assume hd: "head < length q"
  have step: "\<And>acc. set ns \<subseteq> G \<Longrightarrow>
      (case visitAny ns acc of (q', v') \<Rightarrow>
        (case acc of (q0, v0) \<Rightarrow> (v' = v0 \<and> q' = q0) \<or> (v0 \<subset> v' \<and> v' - v0 \<subseteq> G)))" for ns G
  proof (induction ns)
    case Nil
    show ?case by (cases acc) simp
  next
    case (Cons n ns)
    obtain q0 v0 where acc: "acc = (q0, v0)" by (cases acc)
    show ?case
    proof (cases "n \<notin> v0")
      case False
      then show ?thesis using Cons.IH [of acc] Cons.prems acc by auto
    next
      case True
      from Cons.IH [of "(q0 @ [n], insert n v0)"] Cons.prems
      show ?thesis using True acc by (auto split: prod.splits)
    qed
  qed
  let ?G = "set (gridBubbles s)"
  obtain q' v' where r: "visitAny (getNeighbors s (q ! head)) (q, connected) = (q', v')"
    by (cases "visitAny (getNeighbors s (q ! head)) (q, connected)")
  have "set (getNeighbors s (q ! head)) \<subseteq> ?G" by (auto simp: getNeighbors_def)
  from step [OF this, of "(q, connected)"] r
  have alt: "(v' = connected \<and> q' = q) \<or> (connected \<subset> v' \<and> v' - connected \<subseteq> ?G)" by simp
  have "card (?G - v') < card (?G - connected) \<or>
        (card (?G - v') = card (?G - connected) \<and> length q' - (head + 1) < length q - head)"
  proof (cases "v' = connected \<and> q' = q")
    case True
    then show ?thesis using hd by simp
  next
    case False
    with alt have sub: "connected \<subset> v'" and new: "v' - connected \<subseteq> ?G" by auto
    then obtain b where "b \<in> v'" "b \<notin> connected" by auto
    with new have "b \<in> ?G - connected" "b \<notin> ?G - v'" by auto
    moreover have "?G - v' \<subseteq> ?G - connected" using sub by auto
    ultimately have "?G - v' \<subset> ?G - connected" by auto
    then show ?thesis by (simp add: psubset_card_mono)
  qed
  then show "((s, head + 1, visitAny (getNeighbors s (q ! head)) (q, connected)),
       (s, head, q, connected))
      \<in> inv_image (less_than <*lex*> less_than)
          (\<lambda>(s, head, q, connected). (card (set (gridBubbles s) - connected), length q - head))"
    by (simp add: r)
qed

declare ceilingLoop.simps [simp del]

fun dropFloating :: "nat set \<Rightarrow> nat \<Rightarrow> Game \<times> nat list \<Rightarrow> Game \<times> nat list" where
  "dropFloating connectedToCeiling 0 acc = acc"
| "dropFloating connectedToCeiling (Suc i) (s, fallingBubbles) =
     (let bubble = gridBubbles s ! i in
      if bubble \<notin> connectedToCeiling
      then dropFloating connectedToCeiling i
             (s\<lparr> gridBubbles := take i (gridBubbles s) @ drop (Suc i) (gridBubbles s),
                 bubbles := remove1 bubble (bubbles s),
                 heap := (heap s)(bubble := (heap s bubble)\<lparr> b_isGrid := False, b_vy := 5 \<rparr>),
                 score := score s + 5 \<rparr>,
              fallingBubbles @ [bubble])
      else dropFloating connectedToCeiling i (s, fallingBubbles))"

definition checkFloatingBubbles :: "Game \<Rightarrow> Game" where
  "checkFloatingBubbles s =
     (let q = filter (\<lambda>bubble. b_y (heap s bubble) \<le> BUBBLE_RADIUS * 2) (gridBubbles s);
          connectedToCeiling = ceilingLoop s 0 (q, set q);
          (s', fallingBubbles) =
             dropFloating connectedToCeiling (length (gridBubbles s)) (s, [])
      in s'\<lparr> bubbles := bubbles s' @ fallingBubbles \<rparr>)"

subsection \<open>Animation frames and the end of the game\<close>

text \<open>
  The platform's \<^verbatim>\<open>requestAnimationFrame\<close> registers a callback under a fresh handle
  and returns the handle; \<^verbatim>\<open>cancelAnimationFrame\<close> removes the callback registered
  under a handle, if it is still registered. The only callback of the script is
  \<^verbatim>\<open>gameLoop\<close>, so a request is its handle.
\<close>

definition requestAnimationFrame :: "Game \<Rightarrow> nat \<times> Game" where
  "requestAnimationFrame s =
     (nextHandle s,
      s\<lparr> frameRequests := frameRequests s @ [nextHandle s], nextHandle := nextHandle s + 1 \<rparr>)"

definition cancelAnimationFrame :: "nat \<Rightarrow> Game \<Rightarrow> Game" where
  "cancelAnimationFrame h s = s\<lparr> frameRequests := removeAll h (frameRequests s) \<rparr>"

definition checkGameOver :: "Game \<Rightarrow> Game" where
  "checkGameOver s =
     (if list_ex (\<lambda>bubble. b_y (heap s bubble) + b_radius (heap s bubble)
                     > CANVAS_HEIGHT - CANNON_HEIGHT - BUBBLE_RADIUS * 2) (gridBubbles s)
      then cancelAnimationFrame (animationFrameId s)
             (s\<lparr> alerts := alerts s @ [GameOverAlert (score s)] \<rparr>)
      else if length (gridBubbles s) = 0 \<and> flyingBubble s = None
      then cancelAnimationFrame (animationFrameId s)
             (s\<lparr> alerts := alerts s @ [YouWinAlert (score s)] \<rparr>)
      else s)"

subsection \<open>The flying bubble\<close>

text \<open>
  \<^verbatim>\<open>updateGame()\<close>, in the pieces of its body: \<open>advance\<close> adds the velocity to the
  position, \<open>wallCollision\<close> is the block under \<^verbatim>\<open>// Wall collision\<close> and
  \<open>settle\<close> the block under \<^verbatim>\<open>// Ceiling or Grid collision\<close>.
\<close>

definition advance :: "Bubble \<Rightarrow> Bubble" where
  "advance b = b\<lparr> b_x := b_x b + b_vx b, b_y := b_y b + b_vy b \<rparr>"

definition wallCollision :: "Bubble \<Rightarrow> Bubble" where
  "wallCollision b =
     (if b_x b - b_radius b < 0 \<or> b_x b + b_radius b > CANVAS_WIDTH
      then let b1 = b\<lparr> b_vx := b_vx b * (- 1) \<rparr>;
               b2 = (if b_x b1 - b_radius b1 < 0 then b1\<lparr> b_x := b_radius b1 \<rparr> else b1);
               b3 = (if b_x b2 + b_radius b2 > CANVAS_WIDTH
                     then b2\<lparr> b_x := CANVAS_WIDTH - b_radius b2 \<rparr> else b2)
           in b3
      else b)"

definition collisionWithGrid :: "Game \<Rightarrow> nat \<Rightarrow> bool" where
  "collisionWithGrid s flying =
     list_ex (\<lambda>gridB. isCollidingWith (heap s flying) (heap s gridB)) (gridBubbles s)"

definition snapBubbleToGrid :: "nat \<Rightarrow> Game \<Rightarrow> Game" where
  "snapBubbleToGrid bubble s =
     (let snapped = getGridPosition (b_x (heap s bubble)) (b_y (heap s bubble)) in
      s\<lparr> heap := (heap s)(bubble := (heap s bubble)\<lparr> b_x := s_x snapped, b_y := s_y snapped \<rparr>) \<rparr>)"

definition settle :: "nat \<Rightarrow> Game \<Rightarrow> Game" where
  "settle flying s =
     (let s1 = s\<lparr> heap := (heap s)(flying := (heap s flying)\<lparr> b_isGrid := True \<rparr>) \<rparr>;
          s2 = snapBubbleToGrid flying s1;
          s3 = s2\<lparr> gridBubbles := gridBubbles s2 @ [flying] \<rparr>;
          s4 = checkMatches flying s3;
          s5 = s4\<lparr> flyingBubble := None \<rparr>;
          s6 = checkFloatingBubbles s5
      in checkGameOver s6)"

definition updateGame :: "Game \<Rightarrow> Game" where
  "updateGame s =
     (case flyingBubble s of
        None \<Rightarrow> s
      | Some flying \<Rightarrow>
          let s1 = s\<lparr> heap := (heap s)(flying := wallCollision (advance (heap s flying))) \<rparr> in
          if b_y (heap s1 flying) - b_radius (heap s1 flying) < 0 \<or> collisionWithGrid s1 flying
          then settle flying s1
          else s1)"

subsection \<open>Input handlers\<close>

text \<open>
  \<^verbatim>\<open>Math.atan2(y, x)\<close> on the reals (the model has no negative zero). The handlers
  take the canvas coordinates that \<^verbatim>\<open>getEventCoords\<close> computes from the event.
\<close>

definition atan2 :: "real \<Rightarrow> real \<Rightarrow> real" where
  "atan2 y x =
     (if x > 0 then arctan (y / x)
      else if x < 0 \<and> y \<ge> 0 then arctan (y / x) + pi
      else if x < 0 \<and> y < 0 then arctan (y / x) - pi
      else if y > 0 then pi / 2
      else if y < 0 then - (pi / 2)
      else 0)"

definition cannonCenter :: "real \<times> real" where
  "cannonCenter = (CANVAS_WIDTH / 2, CANVAS_HEIGHT - CANNON_HEIGHT / 2)"

definition handleAim :: "real \<times> real \<Rightarrow> Game \<Rightarrow> Game" where
  "handleAim coords s =
     (if flyingBubble s \<noteq> None then s
      else let dx = fst coords - fst cannonCenter;
               dy = snd coords - snd cannonCenter
           in if dy > 0 then s else s\<lparr> cannonAngle := atan2 dy dx \<rparr>)"

definition handleShoot :: "real \<Rightarrow> Game \<Rightarrow> Game" where
  "handleShoot u s =
     (if flyingBubble s \<noteq> None then s
      else let shootPoint =
                 (fst cannonCenter + cos (cannonAngle s) * (CANNON_HEIGHT / 2),
                  snd cannonCenter + sin (cannonAngle s) * (CANNON_HEIGHT / 2));
               ref = nextRef s;
               bubble = (newBubble (fst shootPoint) (snd shootPoint) (getRandomBubbleColor s u) False)
                          \<lparr> b_vx := cos (cannonAngle s) * SHOOT_SPEED,
                            b_vy := sin (cannonAngle s) * SHOOT_SPEED \<rparr>
           in s\<lparr> heap := (heap s)(ref := bubble), nextRef := ref + 1,
                 flyingBubble := Some ref, bubbles := bubbles s @ [ref] \<rparr>)"

subsection \<open>Initialisation, drawing and the game loop\<close>

text \<open>
  \<^verbatim>\<open>generateInitialGrid()\<close>: \<open>initialCells\<close> lists the pairs \<open>(r, c)\<close> in the
  order in which the nested \<^verbatim>\<open>for\<close> loops visit them and \<open>initialCell\<close> is the
  body of the inner loop. \<open>draws k\<close> is the value of the \<open>k\<close>-th call of
  \<^verbatim>\<open>Math.random()\<close>, counted from 0.
\<close>

definition initialCells :: "(nat \<times> nat) list" where
  "initialCells =
     concat (map (\<lambda>r. map (\<lambda>c. (r, c)) [0 ..< GRID_COLS - (if r mod 2 = 0 then 0 else 1)])
                 [0 ..< INITIAL_GRID_ROWS])"

definition initialCell :: "(nat \<Rightarrow> real) \<Rightarrow> Game \<times> nat \<Rightarrow> nat \<times> nat \<Rightarrow> Game \<times> nat" where
  "initialCell draws acc rc =
     (case acc of (s, k) \<Rightarrow> case rc of (r, c) \<Rightarrow>
        let colOffset = BUBBLE_RADIUS;
            isEvenRow = (r mod 2 = 0);
            startX = (if isEvenRow then BUBBLE_RADIUS else BUBBLE_RADIUS + colOffset);
            px = startX + real c * BUBBLE_DIAMETER;
            py = BUBBLE_RADIUS + real r * (BUBBLE_DIAMETER * sqrt 3 / 2)
        in if px < CANVAS_WIDTH - BUBBLE_RADIUS \<and> py < CANVAS_HEIGHT / 2
           then let ref = nextRef s;
                    bubble = newBubble px py (getRandomBubbleColor s (draws k)) True
                in (s\<lparr> heap := (heap s)(ref := bubble), nextRef := ref + 1,
                       bubbles := bubbles s @ [ref], gridBubbles := gridBubbles s @ [ref] \<rparr>,
                    k + 1)
           else (s, k))"

definition generateInitialGrid :: "(nat \<Rightarrow> real) \<Rightarrow> Game \<Rightarrow> Game" where
  "generateInitialGrid draws s = fst (foldl (initialCell draws) (s, 0) initialCells)"

text \<open>
  \<^verbatim>\<open>drawBubbles()\<close>, reduced to what it does to the state: \<^verbatim>\<open>draw()\<close> of a popping
  bubble counts its \<^verbatim>\<open>popFrame\<close> up and answers whether it is still below 10.
\<close>

fun filterPopping :: "nat list \<Rightarrow> (nat \<Rightarrow> Bubble) \<Rightarrow> nat list \<times> (nat \<Rightarrow> Bubble)" where
  "filterPopping [] h = ([], h)"
| "filterPopping (bubble # rest) h =
     (if b_isPopping (h bubble)
      then let h1 = h(bubble := (h bubble)\<lparr> b_popFrame := b_popFrame (h bubble) + 1 \<rparr>);
               keep = \<not> b_popFrame (h1 bubble) \<ge> 10;
               (kept, h2) = filterPopping rest h1
           in (if keep then bubble # kept else kept, h2)
      else let (kept, h2) = filterPopping rest h in (bubble # kept, h2))"

definition drawBubbles :: "Game \<Rightarrow> Game" where
  "drawBubbles s =
     (let (kept, h) = filterPopping (bubbles s) (heap s) in s\<lparr> bubbles := kept, heap := h \<rparr>)"

definition drawGame :: "Game \<Rightarrow> Game" where
  "drawGame s = drawBubbles s"

definition gameLoop :: "Game \<Rightarrow> Game" where
  "gameLoop s =
     (let s1 = updateGame s;
          s2 = drawGame s1;
          (h, s3) = requestAnimationFrame s2
      in s3\<lparr> animationFrameId := h \<rparr>)"

text \<open>
  The platform runs the callback registered under handle \<open>h\<close>: it takes the callback
  off its list and calls it.
\<close>

definition animationFrame :: "nat \<Rightarrow> Game \<Rightarrow> Game" where
  "animationFrame h s =
     (if h \<in> set (frameRequests s)
      then gameLoop (s\<lparr> frameRequests := removeAll h (frameRequests s) \<rparr>)
      else s)"

text \<open>
  \<^verbatim>\<open>initGame()\<close> runs once, when the window has loaded: \<open>loadedGame\<close> is the
  state that the declarations at the top of the script and the resets of
  \<^verbatim>\<open>initGame\<close> leave, with no object allocated.
\<close>

definition loadedGame :: Game where
  "loadedGame =
     \<lparr> heap = (\<lambda>_. newBubble 0 0 [] False), nextRef = 0, score = 0, cannonAngle = 0,
       bubbles = [], gridBubbles = [], flyingBubble = None,
       animationFrameId = 0, frameRequests = [], nextHandle = 1, alerts = [] \<rparr>"

definition initGame :: "(nat \<Rightarrow> real) \<Rightarrow> Game" where
  "initGame draws =
     (let s0 = loadedGame;
          s1 = generateInitialGrid draws s0;
          (h, s2) = requestAnimationFrame s1
      in s2\<lparr> animationFrameId := h \<rparr>)"

text \<open>
  The colours present in the grid, the colours that some value of \<^verbatim>\<open>Math.random()\<close>
  makes the chooser return, and the invariant of the initial generation: the grid is not
  empty, starts with \<open>first\<close>, and holds allocated bubbles of colour \<open>c\<close> only.
\<close>

definition gridColors :: "Game \<Rightarrow> string set" where
  "gridColors s = (\<lambda>bubble. b_color (heap s bubble)) ` set (gridBubbles s)"

definition attainable :: "Game \<Rightarrow> string \<Rightarrow> bool" where
  "attainable s c \<longleftrightarrow> (\<exists>u. 0 \<le> u \<and> u < 1 \<and> getRandomBubbleColor s u = c)"

definition gridInv :: "Game \<Rightarrow> string \<Rightarrow> nat \<Rightarrow> bool" where
  "gridInv s c first \<longleftrightarrow>
     gridBubbles s \<noteq> [] \<and> hd (gridBubbles s) = first
     \<and> (\<forall>b \<in> set (gridBubbles s). b < nextRef s \<and> b_color (heap s b) = c)"

text \<open>
  The specification side of the gravity pass: the neighbour edges of all colours, the
  grid bubbles at or above the line \<open>y = 2 * BUBBLE_RADIUS\<close>, the bubbles reachable from
  them, the invariant of the traversal, and the state after dropping the bubbles of the
  first \<open>n\<close> grid positions that are not in a set \<open>C\<close>, in the order of the walk.
\<close>

definition neighborEdge :: "Game \<Rightarrow> (nat \<times> nat) set" where
  "neighborEdge s = {(a, b). b \<in> set (getNeighbors s a)}"

definition ceilingSeeds :: "Game \<Rightarrow> nat set" where
  "ceilingSeeds s = {b \<in> set (gridBubbles s). b_y (heap s b) \<le> BUBBLE_RADIUS * 2}"

definition anchored :: "Game \<Rightarrow> nat set" where
  "anchored s = (neighborEdge s)\<^sup>* `` ceilingSeeds s"

definition ceilingInv :: "Game \<Rightarrow> nat \<Rightarrow> nat list \<times> nat set \<Rightarrow> bool" where
  "ceilingInv s head acc = (case acc of (q, v) \<Rightarrow>
      v = set q \<and> head \<le> length q \<and> ceilingSeeds s \<subseteq> set q \<and> set q \<subseteq> anchored s
      \<and> (\<forall>i<head. neighborEdge s `` {q ! i} \<subseteq> set q))"

definition floating :: "nat set \<Rightarrow> nat \<Rightarrow> Game \<Rightarrow> nat list" where
  "floating C n s = rev (filter (\<lambda>b. b \<notin> C) (take n (gridBubbles s)))"

definition dropped :: "nat set \<Rightarrow> nat \<Rightarrow> Game \<Rightarrow> Game" where
  "dropped C n s =
     s\<lparr> gridBubbles := filter (\<lambda>b. b \<in> C) (take n (gridBubbles s)) @ drop n (gridBubbles s),
        bubbles := fold remove1 (floating C n s) (bubbles s),
        heap := (\<lambda>b. if b \<in> set (floating C n s)
                      then (heap s b)\<lparr> b_isGrid := False, b_vy := 5 \<rparr> else heap s b),
        score := score s + 5 * int (length (floating C n s)) \<rparr>"

subsection \<open>Cells of the grid\<close>

text \<open>
  A bubble is on its cell when snapping its position gives the position back; its cell is
  the row and the column that the snap computes; \<open>centreX\<close> and \<open>centreY\<close> are the
  pixel centre of a cell. \<open>gridOk\<close> is the invariant of the grid model: the grid holds no
  bubble twice, every grid bubble is on its cell, and no two grid bubbles have the same
  cell. \<open>gridBound\<close> and \<open>flyingOk\<close> are the facts about the grid and the flying bubble
  that an inductive proof of \<open>gridOk\<close> needs: grid bubbles are allocated, have the
  standard radius and lie in the upper part of the canvas; the flying bubble is
  allocated, is not in the grid, has the standard radius, lies between the walls, is no
  faster than \<open>SHOOT_SPEED\<close> and touches no grid bubble. \<open>samePhysics\<close> relates two
  bubbles that differ at most in colour, flags and pop frame. \<open>initInv\<close> is the
  invariant of the initial generation: the grid bubbles sit in cells of the set \<open>P\<close>.
\<close>

definition onCell :: "Bubble \<Rightarrow> bool" where
  "onCell b \<longleftrightarrow>
     s_x (getGridPosition (b_x b) (b_y b)) = b_x b \<and> s_y (getGridPosition (b_x b) (b_y b)) = b_y b"

definition cellOf :: "Bubble \<Rightarrow> int \<times> int" where
  "cellOf b =
     (s_row (getGridPosition (b_x b) (b_y b)), s_col (getGridPosition (b_x b) (b_y b)))"

definition centreX :: "int \<Rightarrow> int \<Rightarrow> real" where
  "centreX row col = BUBBLE_RADIUS + of_int col * BUBBLE_DIAMETER + of_int (js_rem row 2) * BUBBLE_RADIUS"

definition centreY :: "int \<Rightarrow> real" where
  "centreY row = BUBBLE_RADIUS + of_int row * (BUBBLE_DIAMETER * sqrt 3 / 2)"

definition gridOk :: "Game \<Rightarrow> bool" where
  "gridOk s \<longleftrightarrow>
     distinct (gridBubbles s)
     \<and> (\<forall>a \<in> set (gridBubbles s). onCell (heap s a))
     \<and> (\<forall>a \<in> set (gridBubbles s). \<forall>b \<in> set (gridBubbles s).
           a \<noteq> b \<longrightarrow> cellOf (heap s a) \<noteq> cellOf (heap s b))"

definition gridBound :: "Game \<Rightarrow> bool" where
  "gridBound s \<longleftrightarrow>
     (\<forall>g \<in> set (gridBubbles s).
        g < nextRef s \<and> b_radius (heap s g) = BUBBLE_RADIUS \<and> b_y (heap s g) \<le> 200)"

definition flyingOk :: "Game \<Rightarrow> bool" where
  "flyingOk s \<longleftrightarrow>
     (case flyingBubble s of
        None \<Rightarrow> True
      | Some f \<Rightarrow>
          f < nextRef s \<and> f \<notin> set (gridBubbles s) \<and> b_radius (heap s f) = BUBBLE_RADIUS
          \<and> BUBBLE_RADIUS \<le> b_x (heap s f) \<and> b_x (heap s f) \<le> CANVAS_WIDTH - BUBBLE_RADIUS
          \<and> (b_vx (heap s f))\<^sup>2 + (b_vy (heap s f))\<^sup>2 \<le> SHOOT_SPEED\<^sup>2
          \<and> (\<forall>g \<in> set (gridBubbles s). \<not> isCollidingWith (heap s f) (heap s g)))"

definition gameInv :: "Game \<Rightarrow> bool" where
  "gameInv s \<longleftrightarrow> gridOk s \<and> gridBound s \<and> flyingOk s"

definition samePhysics :: "Bubble \<Rightarrow> Bubble \<Rightarrow> bool" where
  "samePhysics a b \<longleftrightarrow>
     b_x a = b_x b \<and> b_y a = b_y b \<and> b_radius a = b_radius b \<and> b_vx a = b_vx b \<and> b_vy a = b_vy b"

definition initInv :: "Game \<Rightarrow> (nat \<times> nat) set \<Rightarrow> bool" where
  "initInv s P \<longleftrightarrow>
     gridOk s \<and> gridBound s \<and> flyingBubble s = None
     \<and> (\<forall>g \<in> set (gridBubbles s). \<exists>r c. (r, c) \<in> P \<and> cellOf (heap s g) = (int r, int c))"

text \<open>
  The states that the game can reach: the state after \<^verbatim>\<open>initGame\<close>, and from there
  any aim event, shoot event (with a random draw in \<open>[0, 1)\<close>) or animation frame.
\<close>

inductive reachable :: "Game \<Rightarrow> bool" where
  start: "\<forall>k. 0 \<le> draws k \<and> draws k < 1 \<Longrightarrow> reachable (initGame draws)"
| aim: "reachable s \<Longrightarrow> reachable (handleAim coords s)"
| shoot: "reachable s \<Longrightarrow> 0 \<le> u \<Longrightarrow> u < 1 \<Longrightarrow> reachable (handleShoot u s)"
| frame: "reachable s \<Longrightarrow> reachable (animationFrame h s)"

text \<open>Two bubbles at the same place.\<close>

definition samePosition :: "Bubble \<Rightarrow> Bubble \<Rightarrow> bool" where
  "samePosition a b \<longleftrightarrow> b_x a = b_x b \<and> b_y a = b_y b"

subsection \<open>Runs of the game\<close>

text \<open>
  \<open>landed f s\<close> is the state inside \<^verbatim>\<open>updateGame\<close> right after the flying bubble
  \<open>f\<close> of \<open>s\<close> has been moved, marked as a grid bubble, snapped and pushed to
  \<^verbatim>\<open>gridBubbles\<close>: the grid that the match pass and the gravity pass of this tick
  see. \<open>noPop\<close> says that no bubble is popping. \<open>playInv\<close> adds that no alert has been
  shown and that some grid bubble is a seed of the gravity pass.
\<close>

definition landed :: "nat \<Rightarrow> Game \<Rightarrow> Game" where
  "landed f s =
     (let b1 = wallCollision (advance (heap s f));
          snapped = getGridPosition (b_x b1) (b_y b1)
      in s\<lparr> heap := (heap s)(f := b1\<lparr> b_isGrid := True, b_x := s_x snapped, b_y := s_y snapped \<rparr>),
            gridBubbles := gridBubbles s @ [f] \<rparr>)"

definition noPop :: "Game \<Rightarrow> bool" where
  "noPop s \<longleftrightarrow> (\<forall>b. \<not> b_isPopping (heap s b))"

definition playInv :: "Game \<Rightarrow> bool" where
  "playInv s \<longleftrightarrow>
     noPop s \<and> alerts s = []
     \<and> (\<exists>g \<in> set (gridBubbles s). b_y (heap s g) \<le> BUBBLE_RADIUS * 2)"

text \<open>
  \<open>gridAt\<close> says that some grid bubble is at a position. \<open>initPos\<close> is what the
  initial generation keeps about positions: every grid bubble is at the centre of a cell
  of the set \<open>P\<close> with a column below 9, every such cell of \<open>P\<close> has its bubble,
  and nothing but the grid has been touched.
\<close>

definition gridAt :: "Game \<Rightarrow> real \<Rightarrow> real \<Rightarrow> bool" where
  "gridAt s px py \<longleftrightarrow> (\<exists>g \<in> set (gridBubbles s). b_x (heap s g) = px \<and> b_y (heap s g) = py)"

definition initPos :: "Game \<Rightarrow> (nat \<times> nat) set \<Rightarrow> bool" where
  "initPos s P \<longleftrightarrow>
     (\<forall>g \<in> set (gridBubbles s). g < nextRef s
         \<and> (\<exists>r c. (r, c) \<in> P \<and> c < 9 \<and> b_x (heap s g) = centreX (int r) (int c)
                  \<and> b_y (heap s g) = centreY (int r)))
     \<and> (\<forall>r c. (r, c) \<in> P \<and> c < 9 \<longrightarrow> gridAt s (centreX (int r) (int c)) (centreY (int r)))
     \<and> noPop s \<and> alerts s = [] \<and> frameRequests s = [] \<and> nextHandle s = 1"

text \<open>
  \<open>frames n s\<close> lets the platform run the requested animation frame \<open>n\<close> times.
  \<open>flightState s f b h\<close> is \<open>s\<close> with the bubble \<open>b\<close> at the reference \<open>f\<close>
  and the frame \<open>h\<close> requested; \<open>settledState s f h\<close> is the state after the gravity
  pass on \<open>landed f s\<close>, with no flying bubble and the frame \<open>h\<close> requested.
\<close>

primrec frames :: "nat \<Rightarrow> Game \<Rightarrow> Game" where
  "frames 0 s = s"
| "frames (Suc n) s = animationFrame (animationFrameId (frames n s)) (frames n s)"

definition flightState :: "Game \<Rightarrow> nat \<Rightarrow> Bubble \<Rightarrow> nat \<Rightarrow> Game" where
  "flightState s f b h =
     s\<lparr> heap := (heap s)(f := b), frameRequests := [h], nextHandle := Suc h, animationFrameId := h \<rparr>"

definition settledState :: "Game \<Rightarrow> nat \<Rightarrow> nat \<Rightarrow> Game" where
  "settledState s f h =
     (checkFloatingBubbles ((landed f s)\<lparr> flyingBubble := None \<rparr>))
       \<lparr> frameRequests := [h], nextHandle := Suc h, animationFrameId := h \<rparr>"

subsection \<open>Example states\<close>

text \<open>Three red bubbles in a row, each touching the next, and a blue one at the end.\<close>

definition demoHeap :: "nat \<Rightarrow> Bubble" where
  "demoHeap = (\<lambda>_. newBubble 0 0 [] False)
     (0 := newBubble 20 20 ''red'' True,
      1 := newBubble 50 20 ''red'' True,
      2 := newBubble 80 20 ''red'' True,
      3 := newBubble 110 20 ''blue'' True)"

definition demoGame :: Game where
  "demoGame = \<lparr> heap = demoHeap, nextRef = 4, score = 0, cannonAngle = 0,
      bubbles = [0, 1, 2, 3], gridBubbles = [0, 1, 2, 3], flyingBubble = None,
      animationFrameId = 1, frameRequests = [1], nextHandle = 2, alerts = [] \<rparr>"

text \<open>A sequence of random draws: 1/2 first, 9/10 ever after.\<close>

definition demoDraws :: "nat \<Rightarrow> real" where
  "demoDraws k = (if k = 0 then 1 / 2 else 9 / 10)"

text \<open>
  A tick that drops a bubble: a bubble in the top row, a bubble in the second row, and a
  flying bubble about to touch the first. \<open>fallMoved\<close>, \<open>fallSnapped\<close> and
  \<open>fallSettled\<close> are the states after the move, after the insertion into the grid and
  after the gravity pass.
\<close>

definition fallInput :: Game where
  "fallInput =
     \<lparr> heap = (\<lambda>_. newBubble 0 0 [] False)
         (0 := newBubble 20 20 ''red'' True,
          1 := newBubble 40 (20 + 20 * sqrt 3) ''blue'' True,
          2 := (newBubble 50 30 ''green'' False)\<lparr> b_vy := - 10 \<rparr>),
       nextRef = 3, score = 0, cannonAngle = - (pi / 2),
       bubbles = [0, 1, 2], gridBubbles = [0, 1], flyingBubble = Some 2,
       animationFrameId = 1, frameRequests = [1], nextHandle = 2, alerts = [] \<rparr>"

definition fallMoved :: Game where
  "fallMoved =
     \<lparr> heap = (\<lambda>_. newBubble 0 0 [] False)
         (0 := newBubble 20 20 ''red'' True,
          1 := newBubble 40 (20 + 20 * sqrt 3) ''blue'' True,
          2 := (newBubble 50 20 ''green'' False)\<lparr> b_vy := - 10 \<rparr>),
       nextRef = 3, score = 0, cannonAngle = - (pi / 2),
       bubbles = [0, 1, 2], gridBubbles = [0, 1], flyingBubble = Some 2,
       animationFrameId = 1, frameRequests = [], nextHandle = 2, alerts = [] \<rparr>"

definition fallSnapped :: Game where
  "fallSnapped =
     \<lparr> heap = (\<lambda>_. newBubble 0 0 [] False)
         (0 := newBubble 20 20 ''red'' True,
          1 := newBubble 40 (20 + 20 * sqrt 3) ''blue'' True,
          2 := (newBubble 60 20 ''green'' True)\<lparr> b_vy := - 10 \<rparr>),
       nextRef = 3, score = 0, cannonAngle = - (pi / 2),
       bubbles = [0, 1, 2], gridBubbles = [0, 1, 2], flyingBubble = Some 2,
       animationFrameId = 1, frameRequests = [], nextHandle = 2, alerts = [] \<rparr>"

definition fallSettled :: Game where
  "fallSettled =
     \<lparr> heap = (\<lambda>_. newBubble 0 0 [] False)
         (0 := newBubble 20 20 ''red'' True,
          1 := (newBubble 40 (20 + 20 * sqrt 3) ''blue'' True)\<lparr> b_isGrid := False, b_vy := 5 \<rparr>,
          2 := (newBubble 60 20 ''green'' True)\<lparr> b_vy := - 10 \<rparr>),
       nextRef = 3, score = 5, cannonAngle = - (pi / 2),
       bubbles = [0, 2, 1], gridBubbles = [0, 2], flyingBubble = None,
       animationFrameId = 1, frameRequests = [], nextHandle = 2, alerts = [] \<rparr>"

text \<open>
  A tick that clears the grid: two red bubbles and a flying red bubble that settles
  between them and touches both.
\<close>

definition wonInput :: Game where
  "wonInput =
     \<lparr> heap = (\<lambda>_. newBubble 0 0 [] False)
         (0 := newBubble 30 20 ''red'' True,
          1 := newBubble 90 20 ''red'' True,
          2 := (newBubble 60 30 ''red'' False)\<lparr> b_vy := - 10 \<rparr>),
       nextRef = 3, score = 0, cannonAngle = - (pi / 2),
       bubbles = [0, 1, 2], gridBubbles = [0, 1], flyingBubble = Some 2,
       animationFrameId = 1, frameRequests = [1], nextHandle = 2, alerts = [] \<rparr>"

definition wonMoved :: Game where
  "wonMoved =
     \<lparr> heap = (\<lambda>_. newBubble 0 0 [] False)
         (0 := newBubble 30 20 ''red'' True,
          1 := newBubble 90 20 ''red'' True,
          2 := (newBubble 60 20 ''red'' False)\<lparr> b_vy := - 10 \<rparr>),
       nextRef = 3, score = 0, cannonAngle = - (pi / 2),
       bubbles = [0, 1, 2], gridBubbles = [0, 1], flyingBubble = Some 2,
       animationFrameId = 1, frameRequests = [], nextHandle = 2, alerts = [] \<rparr>"

definition wonSnapped :: Game where
  "wonSnapped =
     \<lparr> heap = (\<lambda>_. newBubble 0 0 [] False)
         (0 := newBubble 30 20 ''red'' True,
          1 := newBubble 90 20 ''red'' True,
          2 := (newBubble 60 20 ''red'' True)\<lparr> b_vy := - 10 \<rparr>),
       nextRef = 3, score = 0, cannonAngle = - (pi / 2),
       bubbles = [0, 1, 2], gridBubbles = [0, 1, 2], flyingBubble = Some 2,
       animationFrameId = 1, frameRequests = [], nextHandle = 2, alerts = [] \<rparr>"

definition wonPopped :: Game where
  "wonPopped =
     \<lparr> heap = (\<lambda>_. newBubble 0 0 [] False)
         (0 := (newBubble 30 20 ''red'' True)\<lparr> b_isPopping := True \<rparr>,
          1 := (newBubble 90 20 ''red'' True)\<lparr> b_isPopping := True \<rparr>,
          2 := (newBubble 60 20 ''red'' True)\<lparr> b_vy := - 10, b_isPopping := True \<rparr>),
       nextRef = 3, score = 30, cannonAngle = - (pi / 2),
       bubbles = [0, 1, 2], gridBubbles = [], flyingBubble = None,
       animationFrameId = 1, frameRequests = [], nextHandle = 2, alerts = [] \<rparr>"

definition wonDrawn :: Game where
  "wonDrawn =
     \<lparr> heap = (\<lambda>_. newBubble 0 0 [] False)
         (0 := (newBubble 30 20 ''red'' True)\<lparr> b_isPopping := True, b_popFrame := 1 \<rparr>,
          1 := (newBubble 90 20 ''red'' True)\<lparr> b_isPopping := True, b_popFrame := 1 \<rparr>,
          2 := (newBubble 60 20 ''red'' True)\<lparr> b_vy := - 10, b_isPopping := True, b_popFrame := 1 \<rparr>),
       nextRef = 3, score = 30, cannonAngle = - (pi / 2),
       bubbles = [0, 1, 2], gridBubbles = [], flyingBubble = None,
       animationFrameId = 1, frameRequests = [], nextHandle = 2, alerts = [YouWinAlert 30] \<rparr>"

text \<open>A flying bubble on top of the only grid bubble.\<close>

definition dupInput :: Game where
  "dupInput =
     \<lparr> heap = (\<lambda>_. newBubble 0 0 [] False)
         (0 := newBubble 20 20 ''red'' True,
          1 := (newBubble 20 30 ''blue'' False)\<lparr> b_vy := - 10 \<rparr>),
       nextRef = 2, score = 0, cannonAngle = - (pi / 2),
       bubbles = [0, 1], gridBubbles = [0], flyingBubble = Some 1,
       animationFrameId = 1, frameRequests = [1], nextHandle = 2, alerts = [] \<rparr>"

definition dupMoved :: Game where
  "dupMoved =
     \<lparr> heap = (\<lambda>_. newBubble 0 0 [] False)
         (0 := newBubble 20 20 ''red'' True,
          1 := (newBubble 20 20 ''blue'' False)\<lparr> b_vy := - 10 \<rparr>),
       nextRef = 2, score = 0, cannonAngle = - (pi / 2),
       bubbles = [0, 1], gridBubbles = [0], flyingBubble = Some 1,
       animationFrameId = 1, frameRequests = [], nextHandle = 2, alerts = [] \<rparr>"

definition dupSnapped :: Game where
  "dupSnapped =
     \<lparr> heap = (\<lambda>_. newBubble 0 0 [] False)
         (0 := newBubble 20 20 ''red'' True,
          1 := (newBubble 20 20 ''blue'' True)\<lparr> b_vy := - 10 \<rparr>),
       nextRef = 2, score = 0, cannonAngle = - (pi / 2),
       bubbles = [0, 1], gridBubbles = [0, 1], flyingBubble = Some 1,
       animationFrameId = 1, frameRequests = [], nextHandle = 2, alerts = [] \<rparr>"

text \<open>
  A run of the game: the page loads with the draws \<open>demoDraws\<close>, the player aims
  straight up from the cannon at (200, 580) and shoots. \<open>shotRef\<close> is the bubble
  that is shot. After 37 frames the player aims at (212, 545) and shoots again.
\<close>

definition shotOne :: Game where
  "shotOne = handleShoot (1 / 2) (handleAim (200, 480) (initGame demoDraws))"

definition shotRef :: nat where
  "shotRef = nextRef (initGame demoDraws)"

definition shotTwo :: Game where
  "shotTwo = handleShoot (1 / 2) (handleAim (212, 545) (frames 37 shotOne))"

section \<open>Properties\<close>

subsection \<open>Snapping\<close>

lemma rowHeight_pos: "0 < BUBBLE_DIAMETER * sqrt 3 / 2"
  by (simp add: BUBBLE_DIAMETER_def BUBBLE_RADIUS_def)

lemma snap_back_row: "(h::real) \<noteq> 0 \<Longrightarrow> round ((k + of_int n * h - k) / h) = n"
  by simp

lemma snap_back_col: "(w::real) \<noteq> 0 \<Longrightarrow> round ((k + of_int n * w + e - k - e) / w) = n"
  by simp

lemma snap_fixpoint:
  "getGridPosition (s_x (getGridPosition px py)) (s_y (getGridPosition px py))
     = getGridPosition px py"
proof -
  let ?h = "BUBBLE_DIAMETER * sqrt 3 / 2"
  let ?row = "round ((py - BUBBLE_RADIUS) / ?h)"
  let ?col = "round ((px - BUBBLE_RADIUS - of_int (js_rem ?row 2) * BUBBLE_RADIUS) / BUBBLE_DIAMETER)"
  have d: "BUBBLE_DIAMETER \<noteq> 0" by (simp add: BUBBLE_DIAMETER_def BUBBLE_RADIUS_def)
  have h: "?h \<noteq> 0" using d by simp
  note r = snap_back_row [OF h, of BUBBLE_RADIUS ?row]
  note c = snap_back_col [OF d, of BUBBLE_RADIUS ?col "of_int (js_rem ?row 2) * BUBBLE_RADIUS"]
  show ?thesis
    unfolding getGridPosition_def Let_def Snapped.simps
    by (simp only: r c)
qed

text \<open>
  C8. The hex-grid snap is idempotent: snapping the pixel centre that a first snap
  returned gives the same row, the same column and the same pixel centre again.
\<close>

theorem getGridPosition_idempotent:
  "getGridPosition (s_x (getGridPosition px py)) (s_y (getGridPosition px py))
     = getGridPosition px py"
  by (rule snap_fixpoint)

subsection \<open>The match pass\<close>

lemma visitSameColor_result:
  "\<exists>new. visitSameColor s st ns (q, v, m) = (q @ new, v \<union> set new, m @ new)
     \<and> distinct new
     \<and> set new = {n \<in> set ns. n \<notin> v \<and> b_color (heap s n) = b_color (heap s st)}"
proof (induction ns arbitrary: q v m)
  case Nil
  show ?case by simp
next
  case (Cons n ns)
  show ?case
  proof (cases "n \<notin> v \<and> b_color (heap s n) = b_color (heap s st)")
    case False
    from Cons.IH [of q v m] obtain new where
      "visitSameColor s st ns (q, v, m) = (q @ new, v \<union> set new, m @ new)"
      "distinct new" "set new = {n \<in> set ns. n \<notin> v \<and> b_color (heap s n) = b_color (heap s st)}"
      by blast
    with False show ?thesis by auto
  next
    case True
    from Cons.IH [of "q @ [n]" "insert n v" "m @ [n]"] obtain new where
      r: "visitSameColor s st ns (q @ [n], insert n v, m @ [n])
          = ((q @ [n]) @ new, insert n v \<union> set new, (m @ [n]) @ new)"
      and d: "distinct new"
      and e: "set new = {k \<in> set ns. k \<notin> insert n v \<and> b_color (heap s k) = b_color (heap s st)}"
      by blast
    have "visitSameColor s st (n # ns) (q, v, m) = (q @ (n # new), v \<union> set (n # new), m @ (n # new))"
      using True r by simp
    moreover have "distinct (n # new)" using d e by auto
    moreover have "set (n # new) = {k \<in> set (n # ns). k \<notin> v \<and> b_color (heap s k) = b_color (heap s st)}"
      using e True by auto
    ultimately show ?thesis by blast
  qed
qed

lemma sameColorInv_step:
  assumes inv: "sameColorInv s st head (q, v, m)" and hd: "head < length q"
  shows "sameColorInv s st (head + 1) (visitSameColor s st (getNeighbors s (q ! head)) (q, v, m))"
proof -
  let ?E = "sameColorEdge s (b_color (heap s st))"
  from inv have m: "m = q" and v: "v = set q" and dq: "distinct q" and stq: "st \<in> set q"
    and reach: "set q \<subseteq> sameColorComponent s st"
    and fin: "\<forall>i<head. ?E `` {q ! i} \<subseteq> set q"
    by (simp_all add: sameColorInv_def)
  from visitSameColor_result [of s st "getNeighbors s (q ! head)" q v m] obtain new where
    r: "visitSameColor s st (getNeighbors s (q ! head)) (q, v, m) = (q @ new, v \<union> set new, m @ new)"
    and dn: "distinct new"
    and sn: "set new = {n \<in> set (getNeighbors s (q ! head)). n \<notin> v \<and> b_color (heap s n) = b_color (heap s st)}"
    by blast
  have cur: "q ! head \<in> sameColorComponent s st" using reach hd by auto
  have new_edge: "set new \<subseteq> ?E `` {q ! head}" using sn by (auto simp: sameColorEdge_def)
  have new_reach: "set new \<subseteq> sameColorComponent s st"
  proof
    fix b assume "b \<in> set new"
    with new_edge have "(q ! head, b) \<in> ?E" by auto
    moreover from cur have "(st, q ! head) \<in> ?E\<^sup>*" by (simp add: sameColorComponent_def)
    ultimately have "(st, b) \<in> ?E\<^sup>*" by (rule rtrancl_into_rtrancl [rotated])
    then show "b \<in> sameColorComponent s st" by (simp add: sameColorComponent_def)
  qed
  have cur_done: "?E `` {q ! head} \<subseteq> set (q @ new)"
    using sn v by (auto simp: sameColorEdge_def)
  have "\<forall>i<head + 1. ?E `` {(q @ new) ! i} \<subseteq> set (q @ new)"
  proof (intro allI impI)
    fix i assume i: "i < head + 1"
    then have iq: "i < length q" using hd by simp
    show "?E `` {(q @ new) ! i} \<subseteq> set (q @ new)"
    proof (cases "i = head")
      case True
      then show ?thesis using cur_done iq by (simp add: nth_append)
    next
      case False
      with i have "i < head" by simp
      with fin have "?E `` {q ! i} \<subseteq> set q" by blast
      then show ?thesis using iq by (auto simp: nth_append)
    qed
  qed
  moreover have "distinct (q @ new)" using dq dn sn v by auto
  ultimately show ?thesis
    unfolding r sameColorInv_def using m v stq reach new_reach hd by auto
qed

lemma sameColorInv_exit:
  assumes inv: "sameColorInv s st head (q, v, m)" and hd: "\<not> head < length q"
  shows "set m = sameColorComponent s st \<and> distinct m"
proof -
  let ?E = "sameColorEdge s (b_color (heap s st))"
  from inv hd have m: "m = q" and dq: "distinct q" and stq: "st \<in> set q"
    and reach: "set q \<subseteq> sameColorComponent s st"
    and fin: "\<forall>i<length q. ?E `` {q ! i} \<subseteq> set q"
    by (auto simp: sameColorInv_def)
  have closed: "b \<in> set q" if "a \<in> set q" "(a, b) \<in> ?E" for a b
  proof -
    from that(1) obtain i where "i < length q" "q ! i = a" by (auto simp: in_set_conv_nth)
    with fin that(2) show ?thesis by blast
  qed
  have "b \<in> set q" if "(st, b) \<in> ?E\<^sup>*" for b
    using that by (induction rule: rtrancl_induct) (auto intro: stq closed)
  then have "sameColorComponent s st \<subseteq> set q" by (auto simp: sameColorComponent_def)
  with reach m dq show ?thesis by auto
qed

lemma sameColorLoop_correct:
  "sameColorInv s st head acc \<Longrightarrow>
     set (sameColorLoop s st head acc) = sameColorComponent s st
     \<and> distinct (sameColorLoop s st head acc)"
proof (induction s st head acc rule: sameColorLoop.induct)
  case (1 s st head q v m)
  show ?case
  proof (cases "head < length q")
    case True
    from sameColorInv_step [OF "1.prems" True]
    have "sameColorInv s st (head + 1) (visitSameColor s st (getNeighbors s (q ! head)) (q, v, m))" .
    from "1.IH" [OF True this] True show ?thesis by (simp add: sameColorLoop.simps)
  next
    case False
    from sameColorInv_exit [OF "1.prems" False] False show ?thesis
      by (simp add: sameColorLoop.simps)
  qed
qed

lemma getConnectedSameColorBubbles_correct:
  "set (getConnectedSameColorBubbles s st) = sameColorComponent s st
   \<and> distinct (getConnectedSameColorBubbles s st)"
  unfolding getConnectedSameColorBubbles_def
  by (rule sameColorLoop_correct) (simp add: sameColorInv_def sameColorComponent_def)


lemma distinct_remove1_filter:
  "distinct xs \<Longrightarrow> remove1 m xs = filter (\<lambda>b. b \<noteq> m) xs"
proof (induction xs)
  case Nil
  show ?case by simp
next
  case (Cons a xs)
  show ?case
  proof (cases "a = m")
    case True
    with Cons.prems have "m \<notin> set xs" by simp
    then have "filter (\<lambda>b. b \<noteq> m) xs = xs" by (auto simp: filter_id_conv)
    with True show ?thesis by simp
  next
    case False
    with Cons show ?thesis by simp
  qed
qed

lemma popEach_eq:
  "distinct (gridBubbles s) \<Longrightarrow>
     popEach ms s =
       s\<lparr> heap := (\<lambda>b. if b \<in> set ms then (heap s b)\<lparr> b_isPopping := True \<rparr> else heap s b),
          gridBubbles := filter (\<lambda>b. b \<notin> set ms) (gridBubbles s) \<rparr>"
proof (induction ms arbitrary: s)
  case Nil
  show ?case by simp
next
  case (Cons m ms)
  let ?s' = "s\<lparr> heap := (heap s)(m := (heap s m)\<lparr> b_isPopping := True \<rparr>),
           gridBubbles := remove1 m (gridBubbles s) \<rparr>"
  have r: "remove1 m (gridBubbles s) = filter (\<lambda>b. b \<noteq> m) (gridBubbles s)"
    using Cons.prems by (rule distinct_remove1_filter)
  have d: "distinct (gridBubbles ?s')" using Cons.prems by simp
  have h: "(\<lambda>b. if b \<in> set ms then (heap ?s' b)\<lparr> b_isPopping := True \<rparr> else heap ?s' b)
         = (\<lambda>b. if b \<in> set (m # ms) then (heap s b)\<lparr> b_isPopping := True \<rparr> else heap s b)"
    by (auto simp: fun_eq_iff)
  have g: "filter (\<lambda>b. b \<notin> set ms) (gridBubbles ?s') = filter (\<lambda>b. b \<notin> set (m # ms)) (gridBubbles s)"
    by (simp add: r conj_commute)
  have "popEach (m # ms) s = popEach ms ?s'" by simp
  also have "\<dots> = ?s'\<lparr> heap := (\<lambda>b. if b \<in> set ms then (heap ?s' b)\<lparr> b_isPopping := True \<rparr> else heap ?s' b),
          gridBubbles := filter (\<lambda>b. b \<notin> set ms) (gridBubbles ?s') \<rparr>"
    by (rule Cons.IH [OF d])
  also have "\<dots> = s\<lparr> heap := (\<lambda>b. if b \<in> set (m # ms) then (heap s b)\<lparr> b_isPopping := True \<rparr> else heap s b),
          gridBubbles := filter (\<lambda>b. b \<notin> set (m # ms)) (gridBubbles s) \<rparr>"
    unfolding h g by simp
  finally show ?case .
qed

lemma isCollidingWith_code:
  "isCollidingWith a b \<longleftrightarrow>
     0 < b_radius a + b_radius b - 2 \<and>
     (b_x b - b_x a)\<^sup>2 + (b_y b - b_y a)\<^sup>2 < (b_radius a + b_radius b - 2)\<^sup>2"
proof (cases "0 < b_radius a + b_radius b - 2")
  case True
  let ?t = "b_radius a + b_radius b - 2"
  let ?S = "(b_x b - b_x a)\<^sup>2 + (b_y b - b_y a)\<^sup>2"
  have "sqrt (?t\<^sup>2) = ?t" using True by simp
  then have "sqrt ?S < ?t \<longleftrightarrow> ?S < ?t\<^sup>2" by (metis real_sqrt_less_iff)
  with True show ?thesis by (simp add: isCollidingWith_def dist_js_def)
next
  case False
  have "0 \<le> dist_js a b" by (simp add: dist_js_def)
  with False show ?thesis by (simp add: isCollidingWith_def)
qed

lemma demo_match: "getConnectedSameColorBubbles demoGame 2 = [2, 1, 0]"
  by (simp add: sameColorLoop.simps getConnectedSameColorBubbles_def getNeighbors_def demoGame_def demoHeap_def
      isCollidingWith_code newBubble_def BUBBLE_RADIUS_def)


lemma demo_match3: "getConnectedSameColorBubbles demoGame 3 = [3]"
  by (simp add: sameColorLoop.simps getConnectedSameColorBubbles_def getNeighbors_def demoGame_def demoHeap_def
      isCollidingWith_code newBubble_def BUBBLE_RADIUS_def)

text \<open>
  The match pass as a function of the state it is given. For every state whose grid
  holds each bubble once and every seed, it computes the connected same-colour component
  of the seed over the relation of \<^verbatim>\<open>getNeighbors\<close>; when the component has at
  least three members, every member leaves the grid and is marked popping and the score
  grows by the size times \<open>POP_SCORE\<close>, in one update and with nothing else changed;
  otherwise the state is unchanged. The instance below is a state with bubbles 30 apart,
  closer than two cell centres ever are: no run of the game reaches it, and in the
  states that runs do reach the component is always the seed alone
  (\<open>reachable_no_match\<close>).
\<close>

theorem checkMatches_pops_component:
  assumes "distinct (gridBubbles s)"
  shows "set (getConnectedSameColorBubbles s startBubble) = sameColorComponent s startBubble
     \<and> checkMatches startBubble s =
         (if card (sameColorComponent s startBubble) \<ge> 3
          then popped (sameColorComponent s startBubble) s else s)"
proof -
  let ?m = "getConnectedSameColorBubbles s startBubble"
  let ?C = "sameColorComponent s startBubble"
  have m: "set ?m = ?C" and d: "distinct ?m"
    using getConnectedSameColorBubbles_correct [of s startBubble] by simp_all
  have len: "length ?m = card ?C" using m d distinct_card by fastforce
  have "popBubbles ?m s = popped ?C s"
    using assms by (simp add: popBubbles_def popEach_eq m len popped_def cong: if_cong)
  then show ?thesis using m len by (simp add: checkMatches_def Let_def)
qed

theorem checkMatches_pops_component_witness:
  "distinct (gridBubbles demoGame)
   \<and> sameColorComponent demoGame 2 = {0, 1, 2}
   \<and> gridBubbles (checkMatches 2 demoGame) = [3]
   \<and> score (checkMatches 2 demoGame) = 30
   \<and> b_isPopping (heap (checkMatches 2 demoGame) 0)
   \<and> b_isPopping (heap (checkMatches 2 demoGame) 1)
   \<and> b_isPopping (heap (checkMatches 2 demoGame) 2)
   \<and> sameColorComponent demoGame 3 = {3}
   \<and> checkMatches 3 demoGame = demoGame"
proof -
  have d: "distinct (gridBubbles demoGame)" by (simp add: demoGame_def)
  note t2 = checkMatches_pops_component [OF d, of 2]
  note t3 = checkMatches_pops_component [OF d, of 3]
  have "sameColorComponent demoGame 2 = set [2, 1, 0]"
    unfolding demo_match [symmetric] by (rule conjunct1 [OF t2, symmetric])
  then have c2: "sameColorComponent demoGame 2 = {0, 1, 2}" by auto
  have "sameColorComponent demoGame 3 = set [3]"
    unfolding demo_match3 [symmetric] by (rule conjunct1 [OF t3, symmetric])
  then have c3: "sameColorComponent demoGame 3 = {3}" by simp
  have m2: "checkMatches 2 demoGame = popped {0, 1, 2} demoGame"
    using conjunct2 [OF t2] unfolding c2 by simp
  have m3: "checkMatches 3 demoGame = demoGame"
    using conjunct2 [OF t3] unfolding c3 by simp
  show ?thesis
    unfolding m2 m3 c2 c3
    by (simp add: popped_def demoGame_def POP_SCORE_def)
qed

subsection \<open>Wall reflection\<close>

text \<open>
  C7. When the flying bubble, advanced by its velocity, reaches over the left or the right
  edge of the canvas, \<open>vx\<close> changes its sign and keeps its magnitude, and the bubble's
  \<open>x\<close> lies in \<open>[radius, CANVAS_WIDTH - radius]\<close> afterwards. Every bubble has the
  radius \<open>BUBBLE_RADIUS\<close>, which its constructor sets and nothing changes.
\<close>

theorem wallCollision_reflects:
  assumes "b_radius b = BUBBLE_RADIUS"
    and "b_x (advance b) - b_radius (advance b) < 0
         \<or> b_x (advance b) + b_radius (advance b) > CANVAS_WIDTH"
  shows "b_vx (wallCollision (advance b)) = - b_vx b
     \<and> \<bar>b_vx (wallCollision (advance b))\<bar> = \<bar>b_vx b\<bar>
     \<and> b_radius b \<le> b_x (wallCollision (advance b))
     \<and> b_x (wallCollision (advance b)) \<le> CANVAS_WIDTH - b_radius b
     \<and> b_radius (wallCollision (advance b)) = b_radius b"
  using assms
  by (auto simp: wallCollision_def advance_def Let_def CANVAS_WIDTH_def BUBBLE_RADIUS_def)

theorem wallCollision_reflects_witness:
  "b_radius ((newBubble 15 300 ''red'' False)\<lparr> b_vx := - 10 \<rparr>) = BUBBLE_RADIUS
   \<and> b_x (advance ((newBubble 15 300 ''red'' False)\<lparr> b_vx := - 10 \<rparr>))
        - b_radius (advance ((newBubble 15 300 ''red'' False)\<lparr> b_vx := - 10 \<rparr>)) < 0
   \<and> b_vx (wallCollision (advance ((newBubble 15 300 ''red'' False)\<lparr> b_vx := - 10 \<rparr>))) = 10
   \<and> b_x (wallCollision (advance ((newBubble 15 300 ''red'' False)\<lparr> b_vx := - 10 \<rparr>))) = 20"
proof -
  let ?b = "(newBubble 15 300 ''red'' False)\<lparr> b_vx := - 10 \<rparr>"
  have r: "b_radius ?b = BUBBLE_RADIUS" by (simp add: newBubble_def)
  have e: "b_x (advance ?b) - b_radius (advance ?b) < 0"
    by (simp add: newBubble_def advance_def BUBBLE_RADIUS_def)
  from wallCollision_reflects [OF r disjI1 [OF e]]
  have "b_vx (wallCollision (advance ?b)) = 10" by simp
  moreover have "b_x (wallCollision (advance ?b)) = 20"
    by (simp add: wallCollision_def advance_def newBubble_def BUBBLE_RADIUS_def CANVAS_WIDTH_def)
  ultimately show ?thesis using r e by simp
qed

subsection \<open>The colour chooser\<close>

lemma foldl_addColor_set: "set (foldl addColor acc cs) = set acc \<union> set cs"
  by (induction cs arbitrary: acc) (auto simp: addColor_def)

lemma foldl_addColor_distinct: "distinct acc \<Longrightarrow> distinct (foldl addColor acc cs)"
  by (induction cs arbitrary: acc) (auto simp: addColor_def)

lemma getAvailableColorsInGrid_set:
  "set (getAvailableColorsInGrid s) = (\<lambda>b. b_color (heap s b)) ` set (gridBubbles s)"
  by (simp add: getAvailableColorsInGrid_def foldl_addColor_set)

lemma getAvailableColorsInGrid_distinct: "distinct (getAvailableColorsInGrid s)"
  by (simp add: getAvailableColorsInGrid_def foldl_addColor_distinct)

lemma random_index_less:
  assumes "0 \<le> u" "u < 1" "0 < n"
  shows "nat \<lfloor>u * real n\<rfloor> < n"
proof -
  have "u * real n < real n" using assms by simp
  then have "\<lfloor>u * real n\<rfloor> < int n" by (simp add: floor_less_iff)
  then show ?thesis using assms by linarith
qed

lemma random_index_hit:
  assumes "i < n"
  shows "0 \<le> real i / real n \<and> real i / real n < 1 \<and> nat \<lfloor>real i / real n * real n\<rfloor> = i"
  using assms by simp

text \<open>
  C10. For every value \<open>0 \<le> u < 1\<close> of \<^verbatim>\<open>Math.random()\<close>: when the grid is not
  empty the chooser returns a colour present in the grid, and every colour present in
  the grid is returned for some value; when the grid is empty it returns a colour of the
  palette of five, each of which is returned for some value.
\<close>

theorem getRandomBubbleColor_range:
  assumes "0 \<le> u" and "u < 1"
  shows "(if gridBubbles s \<noteq> []
          then getRandomBubbleColor s u \<in> gridColors s \<and> (\<forall>c \<in> gridColors s. attainable s c)
          else getRandomBubbleColor s u \<in> set BUBBLE_COLORS
               \<and> (\<forall>c \<in> set BUBBLE_COLORS. attainable s c))
         \<and> length BUBBLE_COLORS = 5 \<and> distinct BUBBLE_COLORS"
proof -
  let ?av = "getAvailableColorsInGrid s"
  have av: "set ?av = gridColors s" by (simp add: getAvailableColorsInGrid_set gridColors_def)
  have pal: "length BUBBLE_COLORS = 5 \<and> distinct BUBBLE_COLORS" by (simp add: BUBBLE_COLORS_def)
  show ?thesis
  proof (cases "gridBubbles s = []")
    case True
    then have e: "?av = []" by (simp add: getAvailableColorsInGrid_def)
    have r: "getRandomBubbleColor s v = BUBBLE_COLORS ! nat \<lfloor>v * real (length BUBBLE_COLORS)\<rfloor>" for v
      by (simp add: getRandomBubbleColor_def e)
    have "nat \<lfloor>u * real (length BUBBLE_COLORS)\<rfloor> < length BUBBLE_COLORS"
      using assms pal by (intro random_index_less) simp_all
    then have 1: "getRandomBubbleColor s u \<in> set BUBBLE_COLORS" unfolding r by (rule nth_mem)
    have 2: "attainable s c" if "c \<in> set BUBBLE_COLORS" for c
    proof -
      from that obtain i where i: "i < length BUBBLE_COLORS" "BUBBLE_COLORS ! i = c"
        by (auto simp: in_set_conv_nth)
      from random_index_hit [OF i(1)] i(2) show ?thesis
        unfolding attainable_def r by (intro exI [of _ "real i / real (length BUBBLE_COLORS)"]) simp
    qed
    from 1 2 True pal show ?thesis by simp
  next
    case False
    then have ne: "0 < length ?av" using av by (cases ?av) (auto simp: gridColors_def)
    have r: "getRandomBubbleColor s v = ?av ! nat \<lfloor>v * real (length ?av)\<rfloor>" for v
      using ne by (simp add: getRandomBubbleColor_def Let_def)
    have "nat \<lfloor>u * real (length ?av)\<rfloor> < length ?av"
      using assms ne by (intro random_index_less)
    then have "getRandomBubbleColor s u \<in> set ?av" unfolding r by (rule nth_mem)
    then have 1: "getRandomBubbleColor s u \<in> gridColors s" by (simp only: av)
    have 2: "attainable s c" if "c \<in> gridColors s" for c
    proof -
      from that have "c \<in> set ?av" by (simp only: av)
      then obtain i where i: "i < length ?av" "?av ! i = c"
        by (auto simp: in_set_conv_nth)
      from random_index_hit [OF i(1)] i(2) show ?thesis
        unfolding attainable_def r by (intro exI [of _ "real i / real (length ?av)"]) simp
    qed
    from 1 2 False pal show ?thesis by simp
  qed
qed


theorem getRandomBubbleColor_range_witness:
  "(0::real) \<le> 7 / 10 \<and> (7 / 10 :: real) < 1
   \<and> gridBubbles demoGame \<noteq> []
   \<and> getRandomBubbleColor demoGame (7 / 10) = ''blue''
   \<and> getRandomBubbleColor demoGame (7 / 10) \<in> gridColors demoGame
   \<and> attainable demoGame ''red''
   \<and> gridBubbles loadedGame = []
   \<and> getRandomBubbleColor loadedGame (7 / 10) = ''yellow''
   \<and> getRandomBubbleColor loadedGame (7 / 10) \<in> set BUBBLE_COLORS
   \<and> attainable loadedGame ''purple''"
proof -
  have u: "(0::real) \<le> 7 / 10" "(7 / 10 :: real) < 1" by simp_all
  have red: "''red'' \<in> gridColors demoGame"
    by (simp add: gridColors_def demoGame_def demoHeap_def newBubble_def)
  have purple: "''purple'' \<in> set BUBBLE_COLORS" by (simp add: BUBBLE_COLORS_def)
  have ne: "gridBubbles demoGame \<noteq> []" by (simp add: demoGame_def)
  have em: "gridBubbles loadedGame = []" by (simp add: loadedGame_def)
  have f1: "\<lfloor>(7::real) * 2 / 10\<rfloor> = 1" by linarith
  have f2: "\<lfloor>(7::real) * 5 / 10\<rfloor> = 3" by linarith
  have b: "getRandomBubbleColor demoGame (7 / 10) = ''blue''"
    by (simp add: getRandomBubbleColor_def getAvailableColorsInGrid_def addColor_def
        demoGame_def demoHeap_def newBubble_def f1)
  have y: "getRandomBubbleColor loadedGame (7 / 10) = ''yellow''"
    by (simp add: getRandomBubbleColor_def getAvailableColorsInGrid_def addColor_def
        loadedGame_def BUBBLE_COLORS_def f2)
  from getRandomBubbleColor_range [OF u, of demoGame] ne red
  have 1: "getRandomBubbleColor demoGame (7 / 10) \<in> gridColors demoGame \<and> attainable demoGame ''red''"
    by simp
  from getRandomBubbleColor_range [OF u, of loadedGame] em purple
  have 2: "getRandomBubbleColor loadedGame (7 / 10) \<in> set BUBBLE_COLORS \<and> attainable loadedGame ''purple''"
    by simp
  from u ne b 1 em y 2 show ?thesis by simp
qed

subsection \<open>The initial grid\<close>

lemma gridInv_available:
  assumes "gridInv s c first"
  shows "getAvailableColorsInGrid s = [c]"
proof -
  let ?av = "getAvailableColorsInGrid s"
  from assms have "set ?av = {c}"
    unfolding getAvailableColorsInGrid_set gridInv_def by (cases "gridBubbles s") auto
  moreover have "distinct ?av" by (rule getAvailableColorsInGrid_distinct)
  ultimately have "length ?av = 1" using distinct_card [of ?av] by simp
  then obtain a where "?av = [a]" by (cases ?av) auto
  with \<open>set ?av = {c}\<close> show ?thesis by simp
qed

lemma gridInv_color:
  assumes "gridInv s c first" "0 \<le> u" "u < 1"
  shows "getRandomBubbleColor s u = c"
proof -
  have "\<lfloor>u\<rfloor> = 0" using assms(2,3) by linarith
  then show ?thesis by (simp add: getRandomBubbleColor_def gridInv_available [OF assms(1)])
qed

lemma initialCell_gridInv:
  assumes "gridInv s c first" "0 \<le> draws k" "draws k < 1"
  shows "gridInv (fst (initialCell draws (s, k) rc)) c first"
proof -
  obtain r c' where rc: "rc = (r, c')" by (cases rc)
  from assms(1) have "nextRef s \<notin> set (gridBubbles s)" by (auto simp: gridInv_def)
  with assms(1) show ?thesis
    unfolding rc initialCell_def
    by (auto simp: Let_def gridInv_def gridInv_color [OF assms] newBubble_def less_Suc_eq)
qed

lemma foldl_initialCell_gridInv:
  assumes "\<forall>k. 0 \<le> draws k \<and> draws k < 1"
  shows "gridInv s c first \<Longrightarrow> gridInv (fst (foldl (initialCell draws) (s, k) cells)) c first"
proof (induction cells arbitrary: s k)
  case Nil
  then show ?case by simp
next
  case (Cons rc cells)
  obtain s' k' where st: "initialCell draws (s, k) rc = (s', k')"
    by (cases "initialCell draws (s, k) rc")
  from initialCell_gridInv [OF Cons.prems, of draws k rc] assms
  have "gridInv s' c first" by (simp add: st)
  from Cons.IH [OF this, of k'] show ?case by (simp add: st)
qed

lemma initialCells_first: "initialCells = (0, 0) # tl initialCells"
  by (simp add: initialCells_def INITIAL_GRID_ROWS_def GRID_COLS_def upt_conv_Cons)

lemma initialCell_first:
  assumes "gridBubbles s = []"
  shows "gridInv (fst (initialCell draws (s, 0) (0, 0)))
           (BUBBLE_COLORS ! nat \<lfloor>draws 0 * 5\<rfloor>) (nextRef s)
         \<and> snd (initialCell draws (s, 0) (0, 0)) = 1"
  using assms
  by (simp add: initialCell_def Let_def gridInv_def newBubble_def getRandomBubbleColor_def
      getAvailableColorsInGrid_def BUBBLE_RADIUS_def CANVAS_WIDTH_def CANVAS_HEIGHT_def
      BUBBLE_COLORS_def)

lemma generateInitialGrid_gridInv:
  assumes "\<forall>k. 0 \<le> draws k \<and> draws k < 1" and "gridBubbles s = []"
  shows "gridInv (generateInitialGrid draws s) (BUBBLE_COLORS ! nat \<lfloor>draws 0 * 5\<rfloor>) (nextRef s)"
proof -
  let ?c = "BUBBLE_COLORS ! nat \<lfloor>draws 0 * 5\<rfloor>"
  obtain s1 where s1: "initialCell draws (s, 0) (0, 0) = (s1, 1)"
    using initialCell_first [OF assms(2), of draws]
    by (cases "initialCell draws (s, 0) (0, 0)") simp
  have i1: "gridInv s1 ?c (nextRef s)" using initialCell_first [OF assms(2), of draws] s1 by simp
  have "generateInitialGrid draws s = fst (foldl (initialCell draws) (s1, 1) (tl initialCells))"
    unfolding generateInitialGrid_def by (subst initialCells_first) (simp add: s1)
  with foldl_initialCell_gridInv [OF assms(1) i1, of 1 "tl initialCells"]
  show ?thesis by simp
qed

text \<open>
  C5. For every sequence of random draws, the initial grid generated from an empty grid
  is monochrome: it is not empty, and every bubble in it has the colour of the first one,
  which is the palette colour that the first draw selects.
\<close>

theorem generateInitialGrid_monochrome:
  assumes "\<forall>k. 0 \<le> draws k \<and> draws k < 1" and "gridBubbles s = []"
  shows "gridBubbles (generateInitialGrid draws s) \<noteq> []
     \<and> (\<forall>b \<in> set (gridBubbles (generateInitialGrid draws s)).
          b_color (heap (generateInitialGrid draws s) b)
            = b_color (heap (generateInitialGrid draws s) (hd (gridBubbles (generateInitialGrid draws s)))))
     \<and> b_color (heap (generateInitialGrid draws s) (hd (gridBubbles (generateInitialGrid draws s))))
         = BUBBLE_COLORS ! nat \<lfloor>draws 0 * 5\<rfloor>"
  using generateInitialGrid_gridInv [OF assms] unfolding gridInv_def by (metis hd_in_set)


theorem generateInitialGrid_monochrome_witness:
  "(\<forall>k. 0 \<le> demoDraws k \<and> demoDraws k < 1)
   \<and> gridBubbles loadedGame = []
   \<and> gridBubbles (generateInitialGrid demoDraws loadedGame) \<noteq> []
   \<and> b_color (heap (generateInitialGrid demoDraws loadedGame)
                 (hd (gridBubbles (generateInitialGrid demoDraws loadedGame)))) = ''blue''
   \<and> b_color (heap (generateInitialGrid demoDraws loadedGame)
                 (last (gridBubbles (generateInitialGrid demoDraws loadedGame)))) = ''blue''"
proof -
  let ?g = "generateInitialGrid demoDraws loadedGame"
  have d: "\<forall>k. 0 \<le> demoDraws k \<and> demoDraws k < 1" by (simp add: demoDraws_def)
  have e: "gridBubbles loadedGame = []" by (simp add: loadedGame_def)
  have f: "\<lfloor>(5::real) / 2\<rfloor> = 2" by linarith
  have c: "BUBBLE_COLORS ! nat \<lfloor>demoDraws 0 * 5\<rfloor> = ''blue''"
    by (simp add: demoDraws_def BUBBLE_COLORS_def f)
  note t = generateInitialGrid_monochrome [OF d e]
  from t have ne: "gridBubbles ?g \<noteq> []" by simp
  then have "last (gridBubbles ?g) \<in> set (gridBubbles ?g)" by simp
  with t have "b_color (heap ?g (last (gridBubbles ?g))) = b_color (heap ?g (hd (gridBubbles ?g)))"
    by blast
  moreover from t c have "b_color (heap ?g (hd (gridBubbles ?g))) = ''blue''" by simp
  ultimately show ?thesis using d e ne by simp
qed

lemma sqrt3_less_2: "sqrt 3 < 2"
  by (rule real_less_lsqrt) simp_all

subsection \<open>The gravity pass\<close>

lemma visitAny_result:
  "\<exists>new. visitAny ns (q, v) = (q @ new, v \<union> set new) \<and> set new = {n \<in> set ns. n \<notin> v}"
proof (induction ns arbitrary: q v)
  case Nil
  show ?case by simp
next
  case (Cons n ns)
  show ?case
  proof (cases "n \<notin> v")
    case False
    from Cons.IH [of q v] obtain new where
      "visitAny ns (q, v) = (q @ new, v \<union> set new)" "set new = {n \<in> set ns. n \<notin> v}"
      by blast
    with False show ?thesis by auto
  next
    case True
    from Cons.IH [of "q @ [n]" "insert n v"] obtain new where
      r: "visitAny ns (q @ [n], insert n v) = ((q @ [n]) @ new, insert n v \<union> set new)"
      and e: "set new = {k \<in> set ns. k \<notin> insert n v}"
      by blast
    have "visitAny (n # ns) (q, v) = (q @ (n # new), v \<union> set (n # new))"
      using True r by simp
    moreover have "set (n # new) = {k \<in> set (n # ns). k \<notin> v}"
      using e True by auto
    ultimately show ?thesis by blast
  qed
qed

lemma ceilingInv_step:
  assumes inv: "ceilingInv s head (q, v)" and hd: "head < length q"
  shows "ceilingInv s (head + 1) (visitAny (getNeighbors s (q ! head)) (q, v))"
proof -
  let ?E = "neighborEdge s"
  from inv have v: "v = set q" and seeds: "ceilingSeeds s \<subseteq> set q"
    and reach: "set q \<subseteq> anchored s"
    and fin: "\<forall>i<head. ?E `` {q ! i} \<subseteq> set q"
    by (simp_all add: ceilingInv_def)
  from visitAny_result [of "getNeighbors s (q ! head)" q v] obtain new where
    r: "visitAny (getNeighbors s (q ! head)) (q, v) = (q @ new, v \<union> set new)"
    and sn: "set new = {n \<in> set (getNeighbors s (q ! head)). n \<notin> v}"
    by blast
  have cur: "q ! head \<in> anchored s" using reach hd by auto
  have new_reach: "set new \<subseteq> anchored s"
  proof
    fix b assume "b \<in> set new"
    with sn have e: "(q ! head, b) \<in> ?E" by (simp add: neighborEdge_def)
    from cur obtain a where a: "a \<in> ceilingSeeds s" "(a, q ! head) \<in> ?E\<^sup>*"
      by (auto simp: anchored_def)
    from a(2) e have "(a, b) \<in> ?E\<^sup>*" by (rule rtrancl_into_rtrancl)
    with a(1) show "b \<in> anchored s" by (auto simp: anchored_def)
  qed
  have cur_done: "?E `` {q ! head} \<subseteq> set (q @ new)"
    using sn v by (auto simp: neighborEdge_def)
  have "\<forall>i<head + 1. ?E `` {(q @ new) ! i} \<subseteq> set (q @ new)"
  proof (intro allI impI)
    fix i assume i: "i < head + 1"
    then have iq: "i < length q" using hd by simp
    show "?E `` {(q @ new) ! i} \<subseteq> set (q @ new)"
    proof (cases "i = head")
      case True
      then show ?thesis using cur_done iq by (simp add: nth_append)
    next
      case False
      with i have "i < head" by simp
      with fin have "?E `` {q ! i} \<subseteq> set q" by blast
      then show ?thesis using iq by (auto simp: nth_append)
    qed
  qed
  then show ?thesis
    unfolding r ceilingInv_def using v seeds reach new_reach hd by auto
qed

lemma ceilingInv_exit:
  assumes inv: "ceilingInv s head (q, v)" and hd: "\<not> head < length q"
  shows "v = anchored s"
proof -
  let ?E = "neighborEdge s"
  from inv hd have v: "v = set q" and seeds: "ceilingSeeds s \<subseteq> set q"
    and reach: "set q \<subseteq> anchored s"
    and fin: "\<forall>i<length q. ?E `` {q ! i} \<subseteq> set q"
    by (auto simp: ceilingInv_def)
  have closed: "b \<in> set q" if "a \<in> set q" "(a, b) \<in> ?E" for a b
  proof -
    from that(1) obtain i where "i < length q" "q ! i = a" by (auto simp: in_set_conv_nth)
    with fin that(2) show ?thesis by blast
  qed
  have "b \<in> set q" if "(a, b) \<in> ?E\<^sup>*" "a \<in> ceilingSeeds s" for a b
    using that seeds by (induction rule: rtrancl_induct) (auto intro: closed)
  then have "anchored s \<subseteq> set q" by (auto simp: anchored_def)
  with reach v show ?thesis by auto
qed

lemma ceilingLoop_correct:
  "ceilingInv s head acc \<Longrightarrow> ceilingLoop s head acc = anchored s"
proof (induction s head acc rule: ceilingLoop.induct)
  case (1 s head q v)
  show ?case
  proof (cases "head < length q")
    case True
    from ceilingInv_step [OF "1.prems" True]
    have "ceilingInv s (head + 1) (visitAny (getNeighbors s (q ! head)) (q, v))" .
    from "1.IH" [OF True this] True show ?thesis by (simp add: ceilingLoop.simps)
  next
    case False
    from ceilingInv_exit [OF "1.prems" False] False show ?thesis
      by (simp add: ceilingLoop.simps)
  qed
qed

lemma ceilingLoop_seeds:
  "ceilingLoop s 0
     (filter (\<lambda>bubble. b_y (heap s bubble) \<le> BUBBLE_RADIUS * 2) (gridBubbles s),
      set (filter (\<lambda>bubble. b_y (heap s bubble) \<le> BUBBLE_RADIUS * 2) (gridBubbles s)))
   = anchored s"
  by (rule ceilingLoop_correct) (auto simp: ceilingInv_def ceilingSeeds_def anchored_def)

lemma dropFloating_eq:
  "n \<le> length (gridBubbles s) \<Longrightarrow>
     dropFloating C n (s, fl) = (dropped C n s, fl @ floating C n s)"
proof (induction n arbitrary: s fl)
  case 0
  show ?case by (simp add: dropped_def floating_def)
next
  case (Suc i)
  let ?g = "gridBubbles s"
  let ?b = "?g ! i"
  from Suc.prems have i: "i < length ?g" by simp
  have tk: "take (Suc i) ?g = take i ?g @ [?b]" using i by (simp add: take_Suc_conv_app_nth)
  show ?case
  proof (cases "?b \<in> C")
    case True
    have "dropFloating C (Suc i) (s, fl) = dropFloating C i (s, fl)" using True by simp
    also have "\<dots> = (dropped C i s, fl @ floating C i s)" using i by (intro Suc.IH) simp
    also have "floating C i s = floating C (Suc i) s" using True by (simp add: floating_def tk)
    also have "dropped C i s = dropped C (Suc i) s"
    proof -
      have "filter (\<lambda>b. b \<in> C) (take i ?g) @ drop i ?g
            = filter (\<lambda>b. b \<in> C) (take (Suc i) ?g) @ drop (Suc i) ?g"
        using True i by (simp add: tk Cons_nth_drop_Suc)
      moreover have "floating C i s = floating C (Suc i) s" using True by (simp add: floating_def tk)
      ultimately show ?thesis by (simp add: dropped_def)
    qed
    finally show ?thesis .
  next
    case False
    let ?s1 = "s\<lparr> gridBubbles := take i ?g @ drop (Suc i) ?g,
                 bubbles := remove1 ?b (bubbles s),
                 heap := (heap s)(?b := (heap s ?b)\<lparr> b_isGrid := False, b_vy := 5 \<rparr>),
                 score := score s + 5 \<rparr>"
    have len: "i \<le> length (gridBubbles ?s1)" using i by simp
    have t1: "take i (gridBubbles ?s1) = take i ?g" using i by simp
    have d1: "drop i (gridBubbles ?s1) = drop (Suc i) ?g" using i by simp
    have fl1: "floating C i ?s1 = floating C i s" by (simp only: floating_def t1)
    have fl: "floating C (Suc i) s = ?b # floating C i s" using False by (simp add: floating_def tk)
    have "dropFloating C (Suc i) (s, fl) = dropFloating C i (?s1, fl @ [?b])"
      using False by (simp add: Let_def)
    also have "\<dots> = (dropped C i ?s1, (fl @ [?b]) @ floating C i ?s1)" by (rule Suc.IH [OF len])
    also have "(fl @ [?b]) @ floating C i ?s1 = fl @ floating C (Suc i) s" by (simp add: fl fl1)
    also have "dropped C i ?s1 = dropped C (Suc i) s"
    proof -
      have g: "filter (\<lambda>b. b \<in> C) (take i (gridBubbles ?s1)) @ drop i (gridBubbles ?s1)
            = filter (\<lambda>b. b \<in> C) (take (Suc i) ?g) @ drop (Suc i) ?g"
        unfolding t1 d1 using False by (simp add: tk)
      have h: "(\<lambda>b. if b \<in> set (floating C i ?s1)
                      then (heap ?s1 b)\<lparr> b_isGrid := False, b_vy := 5 \<rparr> else heap ?s1 b)
             = (\<lambda>b. if b \<in> set (floating C (Suc i) s)
                      then (heap s b)\<lparr> b_isGrid := False, b_vy := 5 \<rparr> else heap s b)"
        by (auto simp: fl fl1 fun_eq_iff)
      have b: "fold remove1 (floating C i ?s1) (bubbles ?s1) = fold remove1 (floating C (Suc i) s) (bubbles s)"
        by (simp add: fl fl1)
      have sc: "score ?s1 + 5 * int (length (floating C i ?s1)) = score s + 5 * int (length (floating C (Suc i) s))"
        by (simp add: fl fl1)
      show ?thesis unfolding dropped_def g h b sc by simp
    qed
    finally show ?thesis .
  qed
qed

lemma checkFloatingBubbles_eq:
  "checkFloatingBubbles s =
     (dropped (anchored s) (length (gridBubbles s)) s)
       \<lparr> bubbles := bubbles (dropped (anchored s) (length (gridBubbles s)) s)
                     @ floating (anchored s) (length (gridBubbles s)) s \<rparr>"
  unfolding checkFloatingBubbles_def Let_def ceilingLoop_seeds
  by (simp add: dropFloating_eq)

subsection \<open>Aiming and shooting\<close>

lemma initialCell_frame:
  "flyingBubble (fst (initialCell draws (s, k) rc)) = flyingBubble s
   \<and> cannonAngle (fst (initialCell draws (s, k) rc)) = cannonAngle s"
  by (cases rc) (simp add: initialCell_def Let_def)

lemma foldl_initialCell_frame:
  "flyingBubble (fst (foldl (initialCell draws) (s, k) cells)) = flyingBubble s
   \<and> cannonAngle (fst (foldl (initialCell draws) (s, k) cells)) = cannonAngle s"
proof (induction cells arbitrary: s k)
  case Nil
  show ?case by simp
next
  case (Cons rc cells)
  obtain s' k' where st: "initialCell draws (s, k) rc = (s', k')"
    by (cases "initialCell draws (s, k) rc")
  from initialCell_frame [of draws s k rc] Cons.IH [of s' k'] show ?case by (simp add: st)
qed

lemma initGame_frame:
  "flyingBubble (initGame draws) = None \<and> cannonAngle (initGame draws) = 0"
  using foldl_initialCell_frame [of draws loadedGame 0 initialCells]
  by (simp add: initGame_def generateInitialGrid_def requestAnimationFrame_def Let_def loadedGame_def)

lemma atan2_up:
  assumes "dy < 0"
  shows "- pi < atan2 dy dx \<and> atan2 dy dx < 0"
proof -
  consider "dx > 0" | "dx < 0" | "dx = 0" by linarith
  then show ?thesis
  proof cases
    case 1
    then have a: "atan2 dy dx = arctan (dy / dx)" by (simp add: atan2_def)
    have "dy / dx < 0" using 1 assms by (simp add: divide_neg_pos)
    then have "arctan (dy / dx) < 0" by (simp only: arctan_less_zero_iff)
    moreover have "- (pi / 2) < arctan (dy / dx)" by (rule arctan_lbound)
    ultimately show ?thesis unfolding a using pi_gt_zero by linarith
  next
    case 2
    then have a: "atan2 dy dx = arctan (dy / dx) - pi" using assms by (simp add: atan2_def)
    have "0 < dy / dx" using 2 assms by (simp add: divide_neg_neg)
    then have "0 < arctan (dy / dx)" by (simp only: zero_less_arctan_iff)
    moreover have "arctan (dy / dx) < pi / 2" by (rule arctan_ubound)
    ultimately show ?thesis unfolding a using pi_gt_zero by linarith
  next
    case 3
    then have a: "atan2 dy dx = - (pi / 2)" using assms by (simp add: atan2_def)
    show ?thesis unfolding a using pi_gt_zero by linarith
  qed
qed

lemma sin_atan2_up: "dy < 0 \<Longrightarrow> sin (atan2 dy dx) < 0"
proof -
  assume "dy < 0"
  from atan2_up [OF this, of dx] have "0 < - atan2 dy dx" "- atan2 dy dx < pi" by simp_all
  then have "0 < sin (- atan2 dy dx)" by (rule sin_gt_zero)
  then show ?thesis by simp
qed

lemma handleAim_below_ignored:
  "snd coords - snd cannonCenter > 0 \<Longrightarrow> handleAim coords s = s"
  by (simp add: handleAim_def Let_def)

lemma handleShoot_after_upward_aim:
  assumes "flyingBubble s = None" and "snd coords - snd cannonCenter < 0"
  shows "flyingBubble (handleShoot u (handleAim coords s)) = Some (nextRef s)
     \<and> b_vy (heap (handleShoot u (handleAim coords s)) (nextRef s)) < 0"
  using assms sin_atan2_up [OF assms(2), of "fst coords - fst cannonCenter"]
  by (simp add: handleShoot_def handleAim_def Let_def SHOOT_SPEED_def mult_neg_pos)

text \<open>
  C9. The claim that every shot has a strictly negative vertical velocity fails on the
  code: a shot fired before any aim event uses the initial angle 0 and has \<open>vy = 0\<close>, and
  an aim event exactly on the horizontal through the cannon (here from straight up to
  the point (300, 580)) is accepted and sets the angle to 0, with the same result.
\<close>

theorem shot_without_upward_aim:
  "b_vy (heap (handleShoot (1 / 2) (initGame demoDraws)) (nextRef (initGame demoDraws))) = 0
   \<and> flyingBubble (handleShoot (1 / 2) (initGame demoDraws)) = Some (nextRef (initGame demoDraws))
   \<and> cannonAngle (handleAim (200, 480) (initGame demoDraws)) = - (pi / 2)
   \<and> cannonAngle (handleAim (300, 580) (handleAim (200, 480) (initGame demoDraws))) = 0
   \<and> b_vy (heap (handleShoot (1 / 2) (handleAim (300, 580) (handleAim (200, 480) (initGame demoDraws))))
             (nextRef (initGame demoDraws))) = 0"
  using initGame_frame [of demoDraws]
  by (simp add: handleShoot_def handleAim_def Let_def cannonCenter_def atan2_def
      CANVAS_WIDTH_def CANVAS_HEIGHT_def CANNON_HEIGHT_def)

subsection \<open>One tick, step by step\<close>

lemma updateGame_flying:
  assumes "flyingBubble s = Some f"
    and "s\<lparr> heap := (heap s)(f := wallCollision (advance (heap s f))) \<rparr> = s1"
  shows "updateGame s =
     (if b_y (heap s1 f) - b_radius (heap s1 f) < 0 \<or> collisionWithGrid s1 f
      then settle f s1 else s1)"
  using assms by (simp add: updateGame_def Let_def)

lemma settle_steps:
  assumes "(snapBubbleToGrid f (s\<lparr> heap := (heap s)(f := (heap s f)\<lparr> b_isGrid := True \<rparr>) \<rparr>))
             = s2"
    and "s2\<lparr> gridBubbles := gridBubbles s2 @ [f] \<rparr> = s3"
    and "checkMatches f s3 = s4"
    and "checkFloatingBubbles (s4\<lparr> flyingBubble := None \<rparr>) = s6"
  shows "settle f s = checkGameOver s6"
  using assms by (simp add: settle_def Let_def)

lemma gameLoop_steps:
  assumes "updateGame s = s1" and "drawGame s1 = s2"
  shows "gameLoop s =
     s2\<lparr> frameRequests := frameRequests s2 @ [nextHandle s2], nextHandle := nextHandle s2 + 1,
         animationFrameId := nextHandle s2 \<rparr>"
  using assms by (simp add: gameLoop_def requestAnimationFrame_def Let_def)

lemmas geometry_defs =
  newBubble_def BUBBLE_RADIUS_def BUBBLE_DIAMETER_def CANVAS_WIDTH_def CANVAS_HEIGHT_def
  CANNON_HEIGHT_def

lemma fall_move:
  "(fallInput\<lparr> frameRequests := [] \<rparr>)
     \<lparr> heap := (heap (fallInput\<lparr> frameRequests := [] \<rparr>))
         (2 := wallCollision (advance (heap (fallInput\<lparr> frameRequests := [] \<rparr>) 2))) \<rparr>
   = fallMoved"
  by (simp add: fallInput_def fallMoved_def advance_def wallCollision_def geometry_defs)

lemma fall_collides: "collisionWithGrid fallMoved 2"
  by (simp add: fallMoved_def collisionWithGrid_def isCollidingWith_code geometry_defs)

lemma fall_snap:
  "(snapBubbleToGrid 2 (fallMoved\<lparr> heap := (heap fallMoved)(2 := (heap fallMoved 2)\<lparr> b_isGrid := True \<rparr>) \<rparr>))
     \<lparr> gridBubbles := gridBubbles (snapBubbleToGrid 2 (fallMoved\<lparr> heap := (heap fallMoved)(2 := (heap fallMoved 2)\<lparr> b_isGrid := True \<rparr>) \<rparr>)) @ [2] \<rparr>
   = fallSnapped"
proof -
  have f: "\<lfloor>(5::real) / 4\<rfloor> = 1" by linarith
  have "getGridPosition 50 20 = \<lparr> s_x = 60, s_y = 20, s_row = 0, s_col = 1 \<rparr>"
    by (simp add: getGridPosition_def Let_def js_rem_def round_def f geometry_defs)
  then show ?thesis
    by (simp add: fallMoved_def fallSnapped_def snapBubbleToGrid_def geometry_defs)
qed

lemma fall_match: "checkMatches 2 fallSnapped = fallSnapped"
proof -
  have "getConnectedSameColorBubbles fallSnapped 2 = [2]"
    by (simp add: getConnectedSameColorBubbles_def sameColorLoop.simps getNeighbors_def
        fallSnapped_def isCollidingWith_code geometry_defs power_mult_distrib)
  then show ?thesis by (simp add: checkMatches_def)
qed

lemma fall_float: "checkFloatingBubbles (fallSnapped\<lparr> flyingBubble := None \<rparr>) = fallSettled"
proof -
  let ?s = "fallSnapped\<lparr> flyingBubble := None \<rparr>"
  have q: "filter (\<lambda>bubble. b_y (heap ?s bubble) \<le> BUBBLE_RADIUS * 2) (gridBubbles ?s) = [0, 2]"
    by (simp add: fallSnapped_def geometry_defs)
  have nb: "getNeighbors ?s 0 = []" "getNeighbors ?s 2 = []"
    by (simp_all add: getNeighbors_def fallSnapped_def isCollidingWith_code geometry_defs
        power_mult_distrib)
  have c: "ceilingLoop ?s 0 ([0, 2], set [0, 2]) = {0, 2}"
    by (simp add: ceilingLoop.simps nb)
  have d: "dropFloating {0, 2} (length (gridBubbles ?s)) (?s, [])
           = (fallSettled\<lparr> bubbles := [0, 2] \<rparr>, [1])"
    by (simp add: fallSnapped_def fallSettled_def numeral_3_eq_3 fun_eq_iff)
  show ?thesis
    unfolding checkFloatingBubbles_def Let_def q c d
    by (simp add: fallSettled_def)
qed

lemma fall_over: "checkGameOver fallSettled = fallSettled"
  by (simp add: checkGameOver_def fallSettled_def geometry_defs)

lemma fall_draw: "drawGame fallSettled = fallSettled"
  by (simp add: drawGame_def drawBubbles_def fallSettled_def geometry_defs)

lemma fall_tick:
  "animationFrame 1 fallInput =
     fallSettled\<lparr> frameRequests := [2], nextHandle := 3, animationFrameId := 2 \<rparr>"
proof -
  have m: "b_y (heap fallMoved 2) - b_radius (heap fallMoved 2) < 0 \<or> collisionWithGrid fallMoved 2"
    using fall_collides by simp
  have "flyingBubble (fallInput\<lparr> frameRequests := [] \<rparr>) = Some 2" by (simp add: fallInput_def)
  from updateGame_flying [OF this fall_move] m
  have "updateGame (fallInput\<lparr> frameRequests := [] \<rparr>) = settle 2 fallMoved" by simp
  also have "\<dots> = checkGameOver fallSettled"
    by (rule settle_steps [OF refl fall_snap fall_match fall_float])
  finally have u: "updateGame (fallInput\<lparr> frameRequests := [] \<rparr>) = fallSettled"
    by (simp add: fall_over)
  have "animationFrame 1 fallInput = gameLoop (fallInput\<lparr> frameRequests := [] \<rparr>)"
    by (simp add: animationFrame_def fallInput_def)
  also note gameLoop_steps [OF u fall_draw]
  finally show ?thesis by (simp add: fallSettled_def)
qed


lemma idle_tick:
  assumes "flyingBubble s = None" and "list_all (\<lambda>b. \<not> b_isPopping (heap s b)) (bubbles s)"
    and "h \<in> set (frameRequests s)"
  shows "animationFrame h s =
     s\<lparr> frameRequests := removeAll h (frameRequests s) @ [nextHandle s],
        nextHandle := nextHandle s + 1, animationFrameId := nextHandle s \<rparr>"
proof -
  let ?s = "s\<lparr> frameRequests := removeAll h (frameRequests s) \<rparr>"
  have keep: "list_all (\<lambda>b. \<not> b_isPopping (hp b)) bs \<Longrightarrow> filterPopping bs hp = (bs, hp)" for bs hp
    by (induction bs) simp_all
  have u: "updateGame ?s = ?s" using assms(1) by (simp add: updateGame_def)
  have d: "drawGame ?s = ?s" using keep [OF assms(2)] by (simp add: drawGame_def drawBubbles_def)
  from gameLoop_steps [OF u d] assms(3) show ?thesis by (simp add: animationFrame_def)
qed

text \<open>
  C4. A bubble that the gravity pass makes fall gets \<open>vy = 5\<close> and stays in
  \<^verbatim>\<open>bubbles\<close>, but no later tick adds its velocity to its position: in the example
  its \<open>y\<close> is the same after the tick that drops it and after the two ticks that follow.
\<close>

theorem falling_bubble_never_moves:
  "b_vy (heap (animationFrame 1 fallInput) 1) = 5
   \<and> \<not> b_isGrid (heap (animationFrame 1 fallInput) 1)
   \<and> 1 \<notin> set (gridBubbles (animationFrame 1 fallInput))
   \<and> 1 \<in> set (bubbles (animationFrame 1 fallInput))
   \<and> b_y (heap (animationFrame 1 fallInput) 1) = 20 + 20 * sqrt 3
   \<and> b_y (heap (animationFrame 2 (animationFrame 1 fallInput)) 1) = 20 + 20 * sqrt 3
   \<and> b_y (heap (animationFrame 3 (animationFrame 2 (animationFrame 1 fallInput))) 1) = 20 + 20 * sqrt 3
   \<and> 1 \<in> set (bubbles (animationFrame 3 (animationFrame 2 (animationFrame 1 fallInput))))"
proof -
  let ?s1 = "fallSettled\<lparr> frameRequests := [2], nextHandle := 3, animationFrameId := 2 \<rparr>"
  let ?s2 = "fallSettled\<lparr> frameRequests := [3], nextHandle := 4, animationFrameId := 3 \<rparr>"
  let ?s3 = "fallSettled\<lparr> frameRequests := [4], nextHandle := 5, animationFrameId := 4 \<rparr>"
  have t2: "animationFrame 2 ?s1 = ?s2"
    by (subst idle_tick) (simp_all add: fallSettled_def newBubble_def)
  have t3: "animationFrame 3 ?s2 = ?s3"
    by (subst idle_tick) (simp_all add: fallSettled_def newBubble_def)
  show ?thesis
    unfolding fall_tick t2 t3 by (simp add: fallSettled_def newBubble_def)
qed

text \<open>
  C2. The seeds of the gravity pass are the grid bubbles with \<open>y \<le> 2 * BUBBLE_RADIUS\<close>,
  one diameter and not two: in the example a bubble of the second row, whose centre is
  within two diameters of the top, touches no seed and is dropped.
\<close>

theorem second_row_bubble_dropped:
  "1 \<in> set (gridBubbles fallInput)
   \<and> s_row (getGridPosition (b_x (heap fallInput 1)) (b_y (heap fallInput 1))) = 1
   \<and> b_y (heap fallInput 1) \<le> 2 * BUBBLE_DIAMETER
   \<and> \<not> b_y (heap fallInput 1) \<le> BUBBLE_RADIUS * 2
   \<and> gridBubbles (animationFrame 1 fallInput) = [0, 2]
   \<and> b_vy (heap (animationFrame 1 fallInput) 1) = 5
   \<and> score (animationFrame 1 fallInput) = score fallInput + 5"
proof -
  have r: "s_row (getGridPosition 40 (20 + 20 * sqrt 3)) = 1"
    by (simp add: getGridPosition_def Let_def geometry_defs)
  have "sqrt 3 \<le> 3" by (rule real_le_lsqrt) simp_all
  then have y: "20 + 20 * sqrt 3 \<le> (80::real)" by simp
  show ?thesis
    unfolding fall_tick using r y by (simp add: fallSettled_def fallInput_def geometry_defs)
qed

lemma won_move:
  "(wonInput\<lparr> frameRequests := [] \<rparr>)
     \<lparr> heap := (heap (wonInput\<lparr> frameRequests := [] \<rparr>))
         (2 := wallCollision (advance (heap (wonInput\<lparr> frameRequests := [] \<rparr>) 2))) \<rparr>
   = wonMoved"
  by (simp add: wonInput_def wonMoved_def advance_def wallCollision_def geometry_defs)

lemma won_collides: "collisionWithGrid wonMoved 2"
  by (simp add: wonMoved_def collisionWithGrid_def isCollidingWith_code geometry_defs)

lemma won_snap:
  "(snapBubbleToGrid 2 (wonMoved\<lparr> heap := (heap wonMoved)(2 := (heap wonMoved 2)\<lparr> b_isGrid := True \<rparr>) \<rparr>))
     \<lparr> gridBubbles := gridBubbles (snapBubbleToGrid 2 (wonMoved\<lparr> heap := (heap wonMoved)(2 := (heap wonMoved 2)\<lparr> b_isGrid := True \<rparr>) \<rparr>)) @ [2] \<rparr>
   = wonSnapped"
proof -
  have "getGridPosition 60 20 = \<lparr> s_x = 60, s_y = 20, s_row = 0, s_col = 1 \<rparr>"
    by (simp add: getGridPosition_def Let_def js_rem_def geometry_defs)
  then show ?thesis
    by (simp add: wonMoved_def wonSnapped_def snapBubbleToGrid_def geometry_defs)
qed

lemma won_match: "(checkMatches 2 wonSnapped)\<lparr> flyingBubble := None \<rparr> = wonPopped"
proof -
  have "getConnectedSameColorBubbles wonSnapped 2 = [2, 0, 1]"
    by (simp add: getConnectedSameColorBubbles_def sameColorLoop.simps getNeighbors_def
        wonSnapped_def isCollidingWith_code geometry_defs)
  then show ?thesis
    by (simp add: checkMatches_def popBubbles_def POP_SCORE_def wonSnapped_def wonPopped_def
        fun_eq_iff)
qed

lemma won_float: "checkFloatingBubbles wonPopped = wonPopped"
  by (simp add: checkFloatingBubbles_def ceilingLoop.simps wonPopped_def)

lemma won_over:
  "checkGameOver wonPopped = wonPopped\<lparr> alerts := [YouWinAlert 30] \<rparr>"
  by (simp add: checkGameOver_def cancelAnimationFrame_def wonPopped_def)

lemma won_draw: "drawGame (wonPopped\<lparr> alerts := [YouWinAlert 30] \<rparr>) = wonDrawn"
  by (simp add: drawGame_def drawBubbles_def wonPopped_def wonDrawn_def geometry_defs fun_eq_iff)

lemma won_tick:
  "animationFrame 1 wonInput =
     wonDrawn\<lparr> frameRequests := [2], nextHandle := 3, animationFrameId := 2 \<rparr>"
proof -
  have m: "b_y (heap wonMoved 2) - b_radius (heap wonMoved 2) < 0 \<or> collisionWithGrid wonMoved 2"
    using won_collides by simp
  have "flyingBubble (wonInput\<lparr> frameRequests := [] \<rparr>) = Some 2" by (simp add: wonInput_def)
  from updateGame_flying [OF this won_move] m
  have "updateGame (wonInput\<lparr> frameRequests := [] \<rparr>) = settle 2 wonMoved" by simp
  also have "\<dots> = checkGameOver wonPopped"
    using won_match won_float by (intro settle_steps [OF refl won_snap refl]) simp
  finally have u: "updateGame (wonInput\<lparr> frameRequests := [] \<rparr>)
      = wonPopped\<lparr> alerts := [YouWinAlert 30] \<rparr>"
    by (simp add: won_over)
  have "animationFrame 1 wonInput = gameLoop (wonInput\<lparr> frameRequests := [] \<rparr>)"
    by (simp add: animationFrame_def wonInput_def)
  also note gameLoop_steps [OF u won_draw]
  finally show ?thesis by (simp add: wonDrawn_def)
qed

lemma gameLoop_requests_frame:
  "animationFrameId (gameLoop s) \<in> set (frameRequests (gameLoop s))"
  by (simp add: gameLoop_def requestAnimationFrame_def Let_def split: prod.splits)

lemma won_tick2:
  "b_popFrame (heap (animationFrame 2 (wonDrawn\<lparr> frameRequests := [2], nextHandle := 3, animationFrameId := 2 \<rparr>)) 0) = 2
   \<and> frameRequests (animationFrame 2 (wonDrawn\<lparr> frameRequests := [2], nextHandle := 3, animationFrameId := 2 \<rparr>)) = [3]"
proof -
  let ?s = "wonDrawn\<lparr> nextHandle := 3, animationFrameId := 2, frameRequests := [] \<rparr>"
  have u: "updateGame ?s = ?s" by (simp add: updateGame_def wonDrawn_def)
  have "animationFrame 2 (wonDrawn\<lparr> frameRequests := [2], nextHandle := 3, animationFrameId := 2 \<rparr>)
        = gameLoop ?s"
    by (simp add: animationFrame_def)
  also note gameLoop_steps [OF u refl]
  finally show ?thesis
    by (simp add: drawGame_def drawBubbles_def wonDrawn_def geometry_defs)
qed

text \<open>
  A tick that ends the game would not stop the ticks: \<^verbatim>\<open>checkGameOver\<close> cancels the
  handle of the frame that is running, and \<^verbatim>\<open>gameLoop\<close> requests the next frame
  afterwards, as it does at the end of every call. In the state \<open>wonInput\<close> the grid is
  cleared, the win is announced, a frame is requested and the next tick runs. The state
  has bubbles 30 apart; no run of the game reaches it or any other state that ends the
  game (\<open>reachable_never_over\<close>).
\<close>

theorem game_over_keeps_scheduling:
  "gridBubbles (animationFrame 1 wonInput) = []
   \<and> flyingBubble (animationFrame 1 wonInput) = None
   \<and> alerts (animationFrame 1 wonInput) = [YouWinAlert 30]
   \<and> frameRequests (animationFrame 1 wonInput) = [2]
   \<and> animationFrameId (animationFrame 1 wonInput) = 2
   \<and> b_popFrame (heap (animationFrame 1 wonInput) 0) = 1
   \<and> b_popFrame (heap (animationFrame 2 (animationFrame 1 wonInput)) 0) = 2
   \<and> frameRequests (animationFrame 2 (animationFrame 1 wonInput)) = [3]
   \<and> animationFrameId (gameLoop s) \<in> set (frameRequests (gameLoop s))"
  unfolding won_tick using gameLoop_requests_frame [of s] won_tick2
  by (simp add: wonDrawn_def geometry_defs)


subsection \<open>Insertion into the grid\<close>

lemma dup_move:
  "(dupInput\<lparr> frameRequests := [] \<rparr>)
     \<lparr> heap := (heap (dupInput\<lparr> frameRequests := [] \<rparr>))
         (1 := wallCollision (advance (heap (dupInput\<lparr> frameRequests := [] \<rparr>) 1))) \<rparr>
   = dupMoved"
  by (simp add: dupInput_def dupMoved_def advance_def wallCollision_def geometry_defs)

lemma dup_collides: "collisionWithGrid dupMoved 1"
  by (simp add: dupMoved_def collisionWithGrid_def isCollidingWith_code geometry_defs)

lemma dup_cell: "getGridPosition 20 20 = \<lparr> s_x = 20, s_y = 20, s_row = 0, s_col = 0 \<rparr>"
  by (simp add: getGridPosition_def Let_def js_rem_def geometry_defs)

lemma dup_snap:
  "(snapBubbleToGrid 1 (dupMoved\<lparr> heap := (heap dupMoved)(1 := (heap dupMoved 1)\<lparr> b_isGrid := True \<rparr>) \<rparr>))
     \<lparr> gridBubbles := gridBubbles (snapBubbleToGrid 1 (dupMoved\<lparr> heap := (heap dupMoved)(1 := (heap dupMoved 1)\<lparr> b_isGrid := True \<rparr>) \<rparr>)) @ [1] \<rparr>
   = dupSnapped"
  using dup_cell by (simp add: dupMoved_def dupSnapped_def snapBubbleToGrid_def geometry_defs)

lemma dup_match: "checkMatches 1 dupSnapped = dupSnapped"
proof -
  have "getConnectedSameColorBubbles dupSnapped 1 = [1]"
    by (simp add: getConnectedSameColorBubbles_def sameColorLoop.simps getNeighbors_def
        dupSnapped_def isCollidingWith_code geometry_defs)
  then show ?thesis by (simp add: checkMatches_def)
qed

lemma dup_float:
  "checkFloatingBubbles (dupSnapped\<lparr> flyingBubble := None \<rparr>) = dupSnapped\<lparr> flyingBubble := None \<rparr>"
proof -
  let ?s = "dupSnapped\<lparr> flyingBubble := None \<rparr>"
  have q: "filter (\<lambda>bubble. b_y (heap ?s bubble) \<le> BUBBLE_RADIUS * 2) (gridBubbles ?s) = [0, 1]"
    by (simp add: dupSnapped_def geometry_defs)
  have nb: "getNeighbors ?s 0 = [1]" "getNeighbors ?s (Suc 0) = [0]"
    by (simp_all add: getNeighbors_def dupSnapped_def isCollidingWith_code geometry_defs)
  have c: "ceilingLoop ?s 0 ([0, 1], set [0, 1]) = {0, 1}"
    by (simp add: ceilingLoop.simps nb insert_commute)
  have d: "dropFloating {0, 1} (length (gridBubbles ?s)) (?s, []) = (?s, [])"
    by (simp add: dupSnapped_def numeral_2_eq_2)
  show ?thesis
    unfolding checkFloatingBubbles_def Let_def q c d by simp
qed

lemma dup_over: "checkGameOver (dupSnapped\<lparr> flyingBubble := None \<rparr>) = dupSnapped\<lparr> flyingBubble := None \<rparr>"
  by (simp add: checkGameOver_def dupSnapped_def geometry_defs)

lemma dup_draw: "drawGame (dupSnapped\<lparr> flyingBubble := None \<rparr>) = dupSnapped\<lparr> flyingBubble := None \<rparr>"
  by (simp add: drawGame_def drawBubbles_def dupSnapped_def geometry_defs)

lemma dup_tick:
  "animationFrame 1 dupInput =
     dupSnapped\<lparr> flyingBubble := None, frameRequests := [2], nextHandle := 3, animationFrameId := 2 \<rparr>"
proof -
  have m: "b_y (heap dupMoved 1) - b_radius (heap dupMoved 1) < 0 \<or> collisionWithGrid dupMoved 1"
    using dup_collides by simp
  have "flyingBubble (dupInput\<lparr> frameRequests := [] \<rparr>) = Some 1" by (simp add: dupInput_def)
  from updateGame_flying [OF this dup_move] m
  have "updateGame (dupInput\<lparr> frameRequests := [] \<rparr>) = settle 1 dupMoved" by simp
  also have "\<dots> = checkGameOver (dupSnapped\<lparr> flyingBubble := None \<rparr>)"
    by (rule settle_steps [OF refl dup_snap dup_match dup_float])
  finally have u: "updateGame (dupInput\<lparr> frameRequests := [] \<rparr>) = dupSnapped\<lparr> flyingBubble := None \<rparr>"
    by (simp add: dup_over)
  have "animationFrame 1 dupInput = gameLoop (dupInput\<lparr> frameRequests := [] \<rparr>)"
    by (simp add: animationFrame_def dupInput_def)
  also note gameLoop_steps [OF u dup_draw]
  finally show ?thesis by (simp add: dupSnapped_def)
qed

text \<open>
  \<^verbatim>\<open>updateGame\<close> itself does not look whether the cell is free. In the state
  \<open>dupInput\<close> the flying bubble overlaps the grid bubble of the cell (0, 0) and settles
  into that cell. No run of the game reaches such a state: a flying bubble never overlaps
  a grid bubble (\<open>reachable_gameInv\<close>).
\<close>

theorem settle_into_occupied_cell:
  "gridBubbles dupInput = [0]
   \<and> s_row (getGridPosition (b_x (heap dupInput 0)) (b_y (heap dupInput 0))) = 0
   \<and> s_col (getGridPosition (b_x (heap dupInput 0)) (b_y (heap dupInput 0))) = 0
   \<and> gridBubbles (animationFrame 1 dupInput) = [0, 1]
   \<and> s_row (getGridPosition (b_x (heap (animationFrame 1 dupInput) 0)) (b_y (heap (animationFrame 1 dupInput) 0))) = 0
   \<and> s_col (getGridPosition (b_x (heap (animationFrame 1 dupInput) 0)) (b_y (heap (animationFrame 1 dupInput) 0))) = 0
   \<and> s_row (getGridPosition (b_x (heap (animationFrame 1 dupInput) 1)) (b_y (heap (animationFrame 1 dupInput) 1))) = 0
   \<and> s_col (getGridPosition (b_x (heap (animationFrame 1 dupInput) 1)) (b_y (heap (animationFrame 1 dupInput) 1))) = 0"
  unfolding dup_tick using dup_cell
  by (simp add: dupSnapped_def dupInput_def newBubble_def)

subsection \<open>Geometry of the cells\<close>

lemma getGridPosition_centre:
  "s_x (getGridPosition px py) = centreX (s_row (getGridPosition px py)) (s_col (getGridPosition px py))
   \<and> s_y (getGridPosition px py) = centreY (s_row (getGridPosition px py))"
  by (simp add: getGridPosition_def Let_def centreX_def centreY_def)

lemma onCell_centre:
  "onCell b \<Longrightarrow> b_x b = centreX (fst (cellOf b)) (snd (cellOf b)) \<and> b_y b = centreY (fst (cellOf b))"
  using getGridPosition_centre [of "b_x b" "b_y b"] by (simp add: onCell_def cellOf_def)

lemma round_near: "\<bar>(t::real) - of_int (round t)\<bar> \<le> 1 / 2"
  using of_int_round_abs_le [of t] by (simp add: abs_minus_commute)

lemma unsnap:
  "(h::real) \<noteq> 0 \<Longrightarrow> p - (k + of_int n * h) = ((p - k) / h - of_int n) * h"
  by (simp add: field_simps)

lemma unsnap_col:
  "(w::real) \<noteq> 0 \<Longrightarrow> p - (k + of_int n * w + e) = ((p - k - e) / w - of_int n) * w"
  by (simp add: field_simps)

lemma snap_near:
  "(px - s_x (getGridPosition px py))\<^sup>2 + (py - s_y (getGridPosition px py))\<^sup>2 \<le> 700"
proof -
  let ?h = "BUBBLE_DIAMETER * sqrt 3 / 2"
  let ?row = "round ((py - BUBBLE_RADIUS) / ?h)"
  let ?e = "of_int (js_rem ?row 2) * BUBBLE_RADIUS"
  let ?col = "round ((px - BUBBLE_RADIUS - ?e) / BUBBLE_DIAMETER)"
  have h: "?h = 20 * sqrt 3" by (simp add: BUBBLE_DIAMETER_def BUBBLE_RADIUS_def)
  have d: "BUBBLE_DIAMETER = 40" by (simp add: BUBBLE_DIAMETER_def BUBBLE_RADIUS_def)
  have hpos: "0 < ?h" by (rule rowHeight_pos)
  have hne: "?h \<noteq> 0" by (simp add: d)
  have dne: "BUBBLE_DIAMETER \<noteq> 0" by (simp add: d)
  have sy: "s_y (getGridPosition px py) = BUBBLE_RADIUS + of_int ?row * ?h"
    by (simp add: getGridPosition_def Let_def)
  have sx: "s_x (getGridPosition px py) = BUBBLE_RADIUS + of_int ?col * BUBBLE_DIAMETER + ?e"
    by (simp add: getGridPosition_def Let_def)
  have "\<bar>py - s_y (getGridPosition px py)\<bar> = \<bar>(py - BUBBLE_RADIUS) / ?h - of_int ?row\<bar> * ?h"
    unfolding sy unsnap [OF hne] using hpos by (simp only: abs_mult abs_of_pos)
  also have "\<dots> \<le> 1 / 2 * ?h"
    using round_near [of "(py - BUBBLE_RADIUS) / ?h"] hpos
    by (intro mult_right_mono) simp_all
  finally have ya: "\<bar>py - s_y (getGridPosition px py)\<bar> \<le> 10 * sqrt 3" by (simp add: h)
  have "(py - s_y (getGridPosition px py))\<^sup>2 \<le> (10 * sqrt 3)\<^sup>2"
    using ya by (intro abs_le_square_iff [THEN iffD1]) simp
  then have y2: "(py - s_y (getGridPosition px py))\<^sup>2 \<le> 300" by (simp add: power_mult_distrib)
  have "\<bar>px - s_x (getGridPosition px py)\<bar>
        = \<bar>(px - BUBBLE_RADIUS - ?e) / BUBBLE_DIAMETER - of_int ?col\<bar> * BUBBLE_DIAMETER"
    unfolding sx unsnap_col [OF dne] by (simp only: abs_mult) (simp add: d)
  also have "\<dots> \<le> 1 / 2 * BUBBLE_DIAMETER"
    using round_near [of "(px - BUBBLE_RADIUS - ?e) / BUBBLE_DIAMETER"]
    by (intro mult_right_mono) (simp_all add: d)
  finally have xa: "\<bar>px - s_x (getGridPosition px py)\<bar> \<le> 20" by (simp add: d)
  have "(px - s_x (getGridPosition px py))\<^sup>2 \<le> 20\<^sup>2"
    using xa by (intro abs_le_square_iff [THEN iffD1]) simp
  then have x2: "(px - s_x (getGridPosition px py))\<^sup>2 \<le> 400" by simp
  from x2 y2 show ?thesis by linarith
qed

lemma js_rem_parity: "js_rem r 2 \<in> {- 1, 0, 1} \<and> (js_rem r 2) mod 2 = r mod 2"
proof -
  have "js_rem r 2 = (if r < 0 then - ((- r) mod 2) else r mod 2)"
    by (simp add: js_rem_def sgn_if)
  moreover have "(- r) mod 2 \<in> {0, 1} \<and> r mod 2 \<in> {0, 1}" by auto
  moreover have "(- ((- r) mod 2)) mod 2 = r mod 2" by presburger
  ultimately show ?thesis by auto
qed

lemma int_square_ge_1: "(z::int) \<noteq> 0 \<Longrightarrow> 1 \<le> z\<^sup>2"
proof -
  assume "z \<noteq> 0"
  then have "0 < z\<^sup>2" by simp
  then show ?thesis by linarith
qed

lemma cells_apart_int:
  assumes "(r1, c1) \<noteq> (r2, c2)"
  shows "(2 * (c1 - c2) + (js_rem r1 2 - js_rem r2 2))\<^sup>2 + 3 * (r1 - r2)\<^sup>2 \<ge> (4::int)"
proof -
  let ?k = "2 * (c1 - c2) + (js_rem r1 2 - js_rem r2 2)"
  consider "r1 = r2" | "\<bar>r1 - r2\<bar> = 1" | "\<bar>r1 - r2\<bar> \<ge> 2" by linarith
  then show ?thesis
  proof cases
    case 1
    with assms have "c1 - c2 \<noteq> 0" by simp
    then have "1 \<le> (c1 - c2)\<^sup>2" by (rule int_square_ge_1)
    moreover have "?k = 2 * (c1 - c2)" using 1 by simp
    then have "?k\<^sup>2 = 4 * (c1 - c2)\<^sup>2" by (simp only: power_mult_distrib) simp
    moreover have "(r1 - r2)\<^sup>2 = 0" using 1 by simp
    ultimately show ?thesis by linarith
  next
    case 2
    then have "r1 mod 2 \<noteq> r2 mod 2" by presburger
    with js_rem_parity [of r1] js_rem_parity [of r2]
    have "js_rem r1 2 mod 2 \<noteq> js_rem r2 2 mod 2" by simp
    then have "?k \<noteq> 0" by presburger
    then have "1 \<le> ?k\<^sup>2" by (rule int_square_ge_1)
    moreover have "(r1 - r2)\<^sup>2 = 1" using 2 by (metis power2_abs one_power2)
    ultimately show ?thesis by simp
  next
    case 3
    have "2\<^sup>2 \<le> \<bar>r1 - r2\<bar>\<^sup>2" using 3 by (intro power_mono) simp_all
    then have "4 \<le> (r1 - r2)\<^sup>2" by simp
    moreover have "?k\<^sup>2 \<ge> 0" by simp
    ultimately show ?thesis by linarith
  qed
qed


lemma cells_apart:
  assumes "onCell a" "onCell b" "cellOf a \<noteq> cellOf b"
  shows "1600 \<le> (b_x b - b_x a)\<^sup>2 + (b_y b - b_y a)\<^sup>2"
proof -
  obtain r1 c1 where ca: "cellOf a = (r1, c1)" by (cases "cellOf a")
  obtain r2 c2 where cb: "cellOf b = (r2, c2)" by (cases "cellOf b")
  let ?k = "2 * (c2 - c1) + (js_rem r2 2 - js_rem r1 2)"
  from onCell_centre [OF assms(1)] ca
  have a: "b_x a = centreX r1 c1" "b_y a = centreY r1" by simp_all
  from onCell_centre [OF assms(2)] cb
  have b: "b_x b = centreX r2 c2" "b_y b = centreY r2" by simp_all
  have dx: "b_x b - b_x a = 20 * of_int ?k"
    unfolding a b centreX_def by (simp add: BUBBLE_DIAMETER_def BUBBLE_RADIUS_def)
  have dy: "b_y b - b_y a = 20 * sqrt 3 * of_int (r2 - r1)"
    unfolding a b centreY_def by (simp add: BUBBLE_DIAMETER_def BUBBLE_RADIUS_def algebra_simps)
  have "(b_x b - b_x a)\<^sup>2 = 400 * (of_int ?k)\<^sup>2" unfolding dx by (simp only: power_mult_distrib) simp
  moreover have "(b_y b - b_y a)\<^sup>2 = 1200 * (of_int (r2 - r1))\<^sup>2"
    unfolding dy by (simp only: power_mult_distrib) simp
  ultimately have sum: "(b_x b - b_x a)\<^sup>2 + (b_y b - b_y a)\<^sup>2
      = 400 * real_of_int (?k\<^sup>2 + 3 * (r2 - r1)\<^sup>2)" by simp
  from assms(3) ca cb have "(r2, c2) \<noteq> (r1, c1)" by auto
  from cells_apart_int [OF this] have "4 \<le> ?k\<^sup>2 + 3 * (r2 - r1)\<^sup>2" .
  then have "real_of_int 4 \<le> real_of_int (?k\<^sup>2 + 3 * (r2 - r1)\<^sup>2)"
    by (simp only: of_int_le_iff)
  then have "400 * real_of_int 4 \<le> 400 * real_of_int (?k\<^sup>2 + 3 * (r2 - r1)\<^sup>2)"
    by (intro mult_left_mono) simp_all
  then show ?thesis unfolding sum by simp
qed

lemma isCollidingWith_radius:
  assumes "b_radius a = BUBBLE_RADIUS" "b_radius b = BUBBLE_RADIUS"
  shows "isCollidingWith a b \<longleftrightarrow> (b_x b - b_x a)\<^sup>2 + (b_y b - b_y a)\<^sup>2 < 1444"
  using assms by (simp add: isCollidingWith_code BUBBLE_RADIUS_def)

lemma cells_not_colliding:
  assumes "onCell a" "onCell b" "cellOf a \<noteq> cellOf b"
    and "b_radius a = BUBBLE_RADIUS" "b_radius b = BUBBLE_RADIUS"
  shows "\<not> isCollidingWith a b"
  using cells_apart [OF assms(1-3)] by (simp add: isCollidingWith_radius [OF assms(4,5)])

lemma move_keeps_distance:
  assumes far: "1444 \<le> (gx - x0)\<^sup>2 + (gy - y0)\<^sup>2"
    and step: "(x1 - x0)\<^sup>2 + (y1 - y0)\<^sup>2 \<le> (100::real)"
  shows "784 \<le> (gx - x1)\<^sup>2 + (gy - y1)\<^sup>2"
proof -
  let ?A = "Complex (gx - x0) (gy - y0)"
  let ?B = "Complex (gx - x1) (gy - y1)"
  let ?D = "Complex (x1 - x0) (y1 - y0)"
  have "?A = ?B + ?D" by (simp add: complex_eq_iff)
  then have tri: "cmod ?A \<le> cmod ?B + cmod ?D" by (simp only: norm_triangle_ineq)
  have "sqrt 1444 \<le> cmod ?A" unfolding complex_norm using far by (simp only: real_sqrt_le_iff)
  moreover have "sqrt 1444 = 38"
  proof -
    have "sqrt ((38::real)\<^sup>2) = 38" by simp
    then show ?thesis by simp
  qed
  ultimately have A: "38 \<le> cmod ?A" by simp
  have "cmod ?D \<le> sqrt 100" unfolding complex_norm using step by (simp only: real_sqrt_le_iff)
  moreover have "sqrt 100 = 10"
  proof -
    have "sqrt ((10::real)\<^sup>2) = 10" by simp
    then show ?thesis by simp
  qed
  ultimately have D: "cmod ?D \<le> 10" by simp
  from tri A D have "28 \<le> cmod ?B" by linarith
  then have "28\<^sup>2 \<le> (cmod ?B)\<^sup>2" by (intro power_mono) simp_all
  then show ?thesis by (simp add: cmod_power2)
qed

subsection \<open>The grid invariant\<close>

lemma move_bounds:
  assumes "b_radius b = BUBBLE_RADIUS" "BUBBLE_RADIUS \<le> b_x b" "b_x b \<le> CANVAS_WIDTH - BUBBLE_RADIUS"
  shows "b_radius (wallCollision (advance b)) = BUBBLE_RADIUS
     \<and> BUBBLE_RADIUS \<le> b_x (wallCollision (advance b))
     \<and> b_x (wallCollision (advance b)) \<le> CANVAS_WIDTH - BUBBLE_RADIUS
     \<and> (b_vx (wallCollision (advance b)))\<^sup>2 + (b_vy (wallCollision (advance b)))\<^sup>2
         = (b_vx b)\<^sup>2 + (b_vy b)\<^sup>2
     \<and> (b_x (wallCollision (advance b)) - b_x b)\<^sup>2 + (b_y (wallCollision (advance b)) - b_y b)\<^sup>2
         \<le> (b_vx b)\<^sup>2 + (b_vy b)\<^sup>2"
proof -
  let ?b' = "wallCollision (advance b)"
  have y: "b_y ?b' - b_y b = b_vy b" by (simp add: wallCollision_def advance_def Let_def)
  have r: "b_radius ?b' = BUBBLE_RADIUS" using assms(1) by (simp add: wallCollision_def advance_def Let_def)
  have v: "(b_vx ?b')\<^sup>2 + (b_vy ?b')\<^sup>2 = (b_vx b)\<^sup>2 + (b_vy b)\<^sup>2"
    by (simp add: wallCollision_def advance_def Let_def)
  have x: "BUBBLE_RADIUS \<le> b_x ?b' \<and> b_x ?b' \<le> CANVAS_WIDTH - BUBBLE_RADIUS"
    using assms by (auto simp: wallCollision_def advance_def Let_def BUBBLE_RADIUS_def CANVAS_WIDTH_def)
  have "\<bar>b_x ?b' - b_x b\<bar> \<le> \<bar>b_vx b\<bar>"
    using assms by (auto simp: wallCollision_def advance_def Let_def BUBBLE_RADIUS_def CANVAS_WIDTH_def)
  then have "(b_x ?b' - b_x b)\<^sup>2 \<le> (b_vx b)\<^sup>2" by (simp only: abs_le_square_iff)
  with y r v x show ?thesis by simp
qed

lemma no_neighbors:
  assumes "gridOk s" "\<forall>g \<in> set (gridBubbles s). b_radius (heap s g) = BUBBLE_RADIUS"
    and "a \<in> set (gridBubbles s)"
  shows "getNeighbors s a = []"
proof -
  have "\<not> (g \<noteq> a \<and> isCollidingWith (heap s a) (heap s g))" if "g \<in> set (gridBubbles s)" for g
  proof
    assume c: "g \<noteq> a \<and> isCollidingWith (heap s a) (heap s g)"
    with assms that have "cellOf (heap s a) \<noteq> cellOf (heap s g)" by (auto simp: gridOk_def)
    moreover from assms that have "onCell (heap s a)" "onCell (heap s g)" by (auto simp: gridOk_def)
    moreover from assms that have "b_radius (heap s a) = BUBBLE_RADIUS" "b_radius (heap s g) = BUBBLE_RADIUS"
      by auto
    ultimately have "\<not> isCollidingWith (heap s a) (heap s g)" by (intro cells_not_colliding)
    with c show False by simp
  qed
  then show ?thesis by (simp add: getNeighbors_def filter_empty_conv)
qed

lemma lonely_component:
  assumes "getNeighbors s f = []"
  shows "sameColorComponent s f = {f}"
proof -
  have "b = f" if "(f, b) \<in> (sameColorEdge s (b_color (heap s f)))\<^sup>*" for b
    using that
  proof (induction rule: rtrancl_induct)
    case base
    show ?case by simp
  next
    case (step y z)
    with assms show ?case by (simp add: sameColorEdge_def)
  qed
  then show ?thesis by (auto simp: sameColorComponent_def)
qed

lemma lonely_checkMatches:
  assumes "getNeighbors s f = []"
  shows "checkMatches f s = s"
proof -
  from getConnectedSameColorBubbles_correct [of s f] lonely_component [OF assms]
  have "set (getConnectedSameColorBubbles s f) = {f}" "distinct (getConnectedSameColorBubbles s f)"
    by simp_all
  then have "length (getConnectedSameColorBubbles s f) = 1"
    using distinct_card [of "getConnectedSameColorBubbles s f"] by simp
  then show ?thesis by (simp add: checkMatches_def)
qed

lemma lonely_anchored:
  assumes "\<forall>a \<in> set (gridBubbles s). getNeighbors s a = []"
  shows "anchored s = ceilingSeeds s"
proof -
  have "b = a" if "(a, b) \<in> (neighborEdge s)\<^sup>*" "a \<in> set (gridBubbles s)" for a b
    using that
  proof (induction rule: rtrancl_induct)
    case base
    show ?case by simp
  next
    case (step y z)
    with assms show ?case by (simp add: neighborEdge_def)
  qed
  then show ?thesis by (auto simp: anchored_def ceilingSeeds_def)
qed

lemma lonely_checkFloatingBubbles:
  assumes "\<forall>a \<in> set (gridBubbles s). getNeighbors s a = []"
  shows "gridBubbles (checkFloatingBubbles s)
           = filter (\<lambda>b. b_y (heap s b) \<le> BUBBLE_RADIUS * 2) (gridBubbles s)
     \<and> (\<forall>b \<in> set (gridBubbles (checkFloatingBubbles s)). heap (checkFloatingBubbles s) b = heap s b)
     \<and> nextRef (checkFloatingBubbles s) = nextRef s
     \<and> flyingBubble (checkFloatingBubbles s) = flyingBubble s"
proof -
  have a: "anchored s = ceilingSeeds s" by (rule lonely_anchored [OF assms])
  have f: "filter (\<lambda>b. b \<in> ceilingSeeds s) (gridBubbles s)
           = filter (\<lambda>b. b_y (heap s b) \<le> BUBBLE_RADIUS * 2) (gridBubbles s)"
    by (rule filter_cong) (simp_all add: ceilingSeeds_def)
  have g: "gridBubbles (checkFloatingBubbles s) = filter (\<lambda>b. b \<in> ceilingSeeds s) (gridBubbles s)"
    by (simp add: checkFloatingBubbles_eq a dropped_def)
  have h: "heap (checkFloatingBubbles s) b = heap s b" if "b \<in> ceilingSeeds s" for b
    using that by (simp add: checkFloatingBubbles_eq a dropped_def floating_def)
  have n: "nextRef (checkFloatingBubbles s) = nextRef s \<and> flyingBubble (checkFloatingBubbles s) = flyingBubble s"
    by (simp add: checkFloatingBubbles_eq dropped_def)
  from g h n show ?thesis unfolding g f [symmetric] by simp
qed


lemma snapped_cell_free:
  assumes g: "onCell g" "b_radius g = BUBBLE_RADIUS"
    and f0: "b_radius f0 = BUBBLE_RADIUS" "\<not> isCollidingWith f0 g"
    and f1: "(b_x f1 - b_x f0)\<^sup>2 + (b_y f1 - b_y f0)\<^sup>2 \<le> 100"
    and f2: "b_x f2 = s_x (getGridPosition (b_x f1) (b_y f1))"
            "b_y f2 = s_y (getGridPosition (b_x f1) (b_y f1))"
  shows "cellOf f2 \<noteq> cellOf g"
proof
  assume eq: "cellOf f2 = cellOf g"
  have on2: "onCell f2" unfolding onCell_def f2 by (simp add: snap_fixpoint)
  from onCell_centre [OF on2] onCell_centre [OF g(1)] eq
  have pos: "b_x f2 = b_x g" "b_y f2 = b_y g" by simp_all
  from f0 g(2) have "1444 \<le> (b_x g - b_x f0)\<^sup>2 + (b_y g - b_y f0)\<^sup>2"
    by (simp add: isCollidingWith_radius)
  from move_keeps_distance [OF this f1]
  have far: "784 \<le> (b_x g - b_x f1)\<^sup>2 + (b_y g - b_y f1)\<^sup>2" .
  from snap_near [of "b_x f1" "b_y f1"]
  have "(b_x f1 - b_x g)\<^sup>2 + (b_y f1 - b_y g)\<^sup>2 \<le> 700" by (simp add: f2 [symmetric] pos)
  then have "(b_x g - b_x f1)\<^sup>2 + (b_y g - b_y f1)\<^sup>2 \<le> 700" by (simp add: power2_commute)
  with far show False by linarith
qed

lemma samePhysics_facts:
  assumes "samePhysics a a'" "samePhysics b b'"
  shows "onCell a = onCell a'" "cellOf a = cellOf a'"
    "isCollidingWith a b = isCollidingWith a' b'"
  using assms by (simp_all add: samePhysics_def onCell_def cellOf_def isCollidingWith_def dist_js_def)

lemma gameInv_cong:
  assumes "gameInv s" and "gridBubbles s' = gridBubbles s" and "flyingBubble s' = flyingBubble s"
    and "nextRef s' = nextRef s" and "\<forall>b. samePhysics (heap s' b) (heap s b)"
  shows "gameInv s'"
proof -
  have p: "samePhysics (heap s' b) (heap s b)" for b using assms(5) by simp
  have on: "onCell (heap s' b) = onCell (heap s b)" for b by (rule samePhysics_facts [OF p p])
  have ce: "cellOf (heap s' b) = cellOf (heap s b)" for b by (rule samePhysics_facts [OF p p])
  have co: "isCollidingWith (heap s' a) (heap s' b) = isCollidingWith (heap s a) (heap s b)" for a b
    by (rule samePhysics_facts [OF p p])
  have f: "b_radius (heap s' b) = b_radius (heap s b)" "b_y (heap s' b) = b_y (heap s b)"
    "b_x (heap s' b) = b_x (heap s b)" "b_vx (heap s' b) = b_vx (heap s b)"
    "b_vy (heap s' b) = b_vy (heap s b)" for b
    using p [of b] by (simp_all add: samePhysics_def)
  from assms(1) have g: "gridOk s" and b: "gridBound s" and fl: "flyingOk s"
    by (simp_all add: gameInv_def)
  have "gridOk s'" using g unfolding gridOk_def assms(2) on ce .
  moreover have "gridBound s'" using b unfolding gridBound_def assms(2,4) f .
  moreover have "flyingOk s'" using fl unfolding flyingOk_def assms(2,3,4) f co .
  ultimately show ?thesis by (simp add: gameInv_def)
qed

lemma samePhysics_trans: "samePhysics a b \<Longrightarrow> samePhysics b c \<Longrightarrow> samePhysics a c"
  by (simp add: samePhysics_def)

lemma filterPopping_physics:
  "samePhysics (snd (filterPopping bs h) b) (h b)"
proof (induction bs arbitrary: h)
  case Nil
  show ?case by (simp add: samePhysics_def)
next
  case (Cons a bs)
  show ?case
  proof (cases "b_isPopping (h a)")
    case False
    with Cons.IH [of h] show ?thesis by (simp add: case_prod_beta)
  next
    case True
    let ?h1 = "h(a := (h a)\<lparr> b_popFrame := b_popFrame (h a) + 1 \<rparr>)"
    have "samePhysics (?h1 b) (h b)" by (simp add: samePhysics_def)
    from samePhysics_trans [OF Cons.IH [of ?h1] this]
    have "samePhysics (snd (filterPopping bs ?h1) b) (h b)" .
    with True show ?thesis by (simp add: Let_def case_prod_beta)
  qed
qed

lemma drawGame_fields:
  "gridBubbles (drawGame s) = gridBubbles s \<and> flyingBubble (drawGame s) = flyingBubble s
   \<and> nextRef (drawGame s) = nextRef s \<and> (\<forall>b. samePhysics (heap (drawGame s) b) (heap s b))"
  using filterPopping_physics [of "bubbles s" "heap s"]
  by (simp add: drawGame_def drawBubbles_def case_prod_beta)

lemma drawGame_gameInv:
  assumes "gameInv s"
  shows "gameInv (drawGame s)"
  using drawGame_fields [of s] by (intro gameInv_cong [OF assms]) simp_all

lemma checkGameOver_fields:
  "gridBubbles (checkGameOver s) = gridBubbles s \<and> flyingBubble (checkGameOver s) = flyingBubble s
   \<and> nextRef (checkGameOver s) = nextRef s \<and> heap (checkGameOver s) = heap s"
  by (simp add: checkGameOver_def cancelAnimationFrame_def)

lemma checkGameOver_gameInv:
  assumes "gameInv s"
  shows "gameInv (checkGameOver s)"
  using checkGameOver_fields [of s] by (intro gameInv_cong [OF assms]) (simp_all add: samePhysics_def)

lemma handleAim_gameInv:
  assumes "gameInv s"
  shows "gameInv (handleAim coords s)"
  by (intro gameInv_cong [OF assms]) (simp_all add: handleAim_def Let_def samePhysics_def)

lemma handleShoot_gameInv:
  assumes "gameInv s"
  shows "gameInv (handleShoot u s)"
proof (cases "flyingBubble s")
  case (Some f)
  with assms show ?thesis by (simp add: handleShoot_def)
next
  case None
  let ?a = "cannonAngle s"
  let ?ref = "nextRef s"
  define nb where "nb =
     (newBubble (fst cannonCenter + cos ?a * (CANNON_HEIGHT / 2))
                (snd cannonCenter + sin ?a * (CANNON_HEIGHT / 2))
                (getRandomBubbleColor s u) False)
       \<lparr> b_vx := cos ?a * SHOOT_SPEED, b_vy := sin ?a * SHOOT_SPEED \<rparr>"
  define s' where "s' = s\<lparr> heap := (heap s)(?ref := nb), nextRef := ?ref + 1,
                 flyingBubble := Some ?ref, bubbles := bubbles s @ [?ref] \<rparr>"
  have eq: "handleShoot u s = s'" using None by (simp add: handleShoot_def Let_def s'_def nb_def)
  from assms have g: "gridOk s" and b: "gridBound s" by (simp_all add: gameInv_def)
  have fresh: "?ref \<notin> set (gridBubbles s)" using b by (auto simp: gridBound_def)
  have fields: "gridBubbles s' = gridBubbles s" "nextRef s' = ?ref + 1" "flyingBubble s' = Some ?ref"
    "heap s' ?ref = nb" by (simp_all add: s'_def)
  have old: "heap s' x = heap s x" if "x \<in> set (gridBubbles s)" for x
    using that fresh by (auto simp: s'_def)
  have "gridOk s'" using g old by (simp add: gridOk_def fields)
  moreover have "gridBound s'" using b old by (auto simp: gridBound_def fields)
  moreover have "flyingOk s'"
  proof -
    have x: "b_x nb = 200 + cos ?a * 20" and y: "b_y nb = 580 + sin ?a * 20"
      and vx: "b_vx nb = cos ?a * 10" and vy: "b_vy nb = sin ?a * 10"
      by (simp_all add: nb_def newBubble_def cannonCenter_def CANVAS_WIDTH_def CANVAS_HEIGHT_def
          CANNON_HEIGHT_def SHOOT_SPEED_def)
    have r: "b_radius nb = BUBBLE_RADIUS" by (simp add: nb_def newBubble_def)
    have xb: "BUBBLE_RADIUS \<le> b_x nb \<and> b_x nb \<le> CANVAS_WIDTH - BUBBLE_RADIUS"
      unfolding x BUBBLE_RADIUS_def CANVAS_WIDTH_def
      using cos_ge_minus_one [of ?a] cos_le_one [of ?a] by linarith
    define co si where "co = cos ?a" and "si = sin ?a"
    have cs: "co\<^sup>2 + si\<^sup>2 = 1" by (simp add: co_def si_def)
    have "(co * 10)\<^sup>2 + (si * 10)\<^sup>2 = 100 * (co\<^sup>2 + si\<^sup>2)"
      by (simp add: power_mult_distrib)
    then have "(co * 10)\<^sup>2 + (si * 10)\<^sup>2 = 100" by (simp only: cs)
    then have v: "(b_vx nb)\<^sup>2 + (b_vy nb)\<^sup>2 \<le> SHOOT_SPEED\<^sup>2"
      by (simp add: vx vy SHOOT_SPEED_def co_def si_def)
    have far: "\<not> isCollidingWith nb (heap s k)" if k: "k \<in> set (gridBubbles s)" for k
    proof -
      from b k have kr: "b_radius (heap s k) = BUBBLE_RADIUS" and ky: "b_y (heap s k) \<le> 200"
        by (auto simp: gridBound_def)
      have "\<bar>360\<bar> \<le> \<bar>b_y (heap s k) - b_y nb\<bar>"
        unfolding y using ky sin_ge_minus_one [of ?a] by linarith
      then have "(360::real)\<^sup>2 \<le> (b_y (heap s k) - b_y nb)\<^sup>2" by (simp only: abs_le_square_iff)
      then have "129600 \<le> (b_y (heap s k) - b_y nb)\<^sup>2" by simp
      moreover have "0 \<le> (b_x (heap s k) - b_x nb)\<^sup>2" by (rule zero_le_power2)
      ultimately have "1444 \<le> (b_x (heap s k) - b_x nb)\<^sup>2 + (b_y (heap s k) - b_y nb)\<^sup>2"
        by linarith
      then show ?thesis by (simp add: isCollidingWith_radius [OF r kr])
    qed
    from fresh r xb v far old show ?thesis by (simp add: flyingOk_def fields)
  qed
  ultimately show ?thesis by (simp add: eq gameInv_def)
qed

lemma getNeighbors_cong:
  "heap s' = heap s \<Longrightarrow> gridBubbles s' = gridBubbles s \<Longrightarrow> getNeighbors s' a = getNeighbors s a"
  by (simp add: getNeighbors_def)

text \<open>
  The state after the insertion of the flying bubble, \<open>landed\<close>, is the state that
  \<^verbatim>\<open>updateGame\<close> hands to the match pass.
\<close>

lemma settle_via_landed:
  "settle f (s\<lparr> heap := (heap s)(f := wallCollision (advance (heap s f))) \<rparr>)
   = checkGameOver (checkFloatingBubbles ((checkMatches f (landed f s))\<lparr> flyingBubble := None \<rparr>))"
  by (simp add: settle_def landed_def snapBubbleToGrid_def Let_def)

text \<open>
  Insertion keeps the grid invariant, and after it no grid bubble has a neighbour: the
  centres of two cells are at least 40 apart, and \<^verbatim>\<open>isCollidingWith\<close> asks for less
  than 38.
\<close>

lemma landed_lonely:
  assumes "gameInv s" and Some: "flyingBubble s = Some f"
  shows "gridOk (landed f s)"
    and "\<forall>k \<in> set (gridBubbles (landed f s)). b_radius (heap (landed f s) k) = BUBBLE_RADIUS"
    and "\<forall>a \<in> set (gridBubbles (landed f s)). getNeighbors (landed f s) a = []"
proof -
  let ?G = "set (gridBubbles s)"
  let ?b0 = "heap s f"
  let ?b1 = "wallCollision (advance ?b0)"
  from assms have g: "gridOk s" and b: "gridBound s" and fl: "flyingOk s"
    by (simp_all add: gameInv_def)
  from fl Some have f: "f < nextRef s" "f \<notin> ?G" "b_radius ?b0 = BUBBLE_RADIUS"
    "BUBBLE_RADIUS \<le> b_x ?b0" "b_x ?b0 \<le> CANVAS_WIDTH - BUBBLE_RADIUS"
    "(b_vx ?b0)\<^sup>2 + (b_vy ?b0)\<^sup>2 \<le> SHOOT_SPEED\<^sup>2"
    and apart: "\<forall>k \<in> ?G. \<not> isCollidingWith ?b0 (heap s k)"
    by (simp_all add: flyingOk_def)
  from move_bounds [OF f(3,4,5)]
  have m: "b_radius ?b1 = BUBBLE_RADIUS"
    "(b_x ?b1 - b_x ?b0)\<^sup>2 + (b_y ?b1 - b_y ?b0)\<^sup>2 \<le> (b_vx ?b0)\<^sup>2 + (b_vy ?b0)\<^sup>2"
    by simp_all
  have step: "(b_x ?b1 - b_x ?b0)\<^sup>2 + (b_y ?b1 - b_y ?b0)\<^sup>2 \<le> 100"
    using m(2) f(6) by (simp add: SHOOT_SPEED_def)
  let ?sx = "s_x (getGridPosition (b_x ?b1) (b_y ?b1))"
  let ?sy = "s_y (getGridPosition (b_x ?b1) (b_y ?b1))"
  let ?b2 = "?b1\<lparr> b_isGrid := True, b_x := ?sx, b_y := ?sy \<rparr>"
  define s3 where "s3 = landed f s"
  have grid3: "set (gridBubbles s3) = insert f ?G" and next3: "nextRef s3 = nextRef s"
    and hf3: "heap s3 f = ?b2" and d3: "distinct (gridBubbles s3)"
    using g f(2) by (simp_all add: s3_def landed_def Let_def gridOk_def)
  have h3: "heap s3 k = heap s k" if "k \<in> ?G" for k
    using that f(2) by (auto simp: s3_def landed_def Let_def)
  have on2: "onCell ?b2" by (simp add: onCell_def snap_fixpoint)
  have r2: "b_radius ?b2 = BUBBLE_RADIUS" using m(1) by simp
  have free: "cellOf ?b2 \<noteq> cellOf (heap s k)" if k: "k \<in> ?G" for k
  proof (rule snapped_cell_free [where ?f0.0 = ?b0 and ?f1.0 = ?b1])
    show "onCell (heap s k)" using g k by (simp add: gridOk_def)
    show "b_radius (heap s k) = BUBBLE_RADIUS" using b k by (simp add: gridBound_def)
    show "b_radius ?b0 = BUBBLE_RADIUS" by (rule f(3))
    show "\<not> isCollidingWith ?b0 (heap s k)" using apart k by simp
    show "(b_x ?b1 - b_x ?b0)\<^sup>2 + (b_y ?b1 - b_y ?b0)\<^sup>2 \<le> 100" by (rule step)
  qed simp_all
  have on3: "onCell (heap s3 a)" if "a \<in> set (gridBubbles s3)" for a
  proof (cases "a = f")
    case True
    then show ?thesis using on2 by (simp only: hf3)
  next
    case False
    with that grid3 have "a \<in> ?G" by simp
    with g h3 [OF this] show ?thesis by (simp add: gridOk_def)
  qed
  have ce3: "cellOf (heap s3 a) \<noteq> cellOf (heap s3 c)"
    if a: "a \<in> set (gridBubbles s3)" and c: "c \<in> set (gridBubbles s3)" and ne: "a \<noteq> c" for a c
  proof (cases "a = f")
    case True
    with ne c grid3 have cG: "c \<in> ?G" by auto
    from free [OF cG] show ?thesis unfolding True hf3 h3 [OF cG] .
  next
    case af: False
    with a grid3 have aG: "a \<in> ?G" by auto
    show ?thesis
    proof (cases "c = f")
      case True
      from free [OF aG] show ?thesis unfolding True hf3 h3 [OF aG] by (rule not_sym)
    next
      case False
      with c grid3 have cG: "c \<in> ?G" by auto
      from g aG cG ne have "cellOf (heap s a) \<noteq> cellOf (heap s c)" unfolding gridOk_def by blast
      then show ?thesis unfolding h3 [OF aG] h3 [OF cG] .
    qed
  qed
  show g3: "gridOk (landed f s)" unfolding gridOk_def s3_def [symmetric] using d3 on3 ce3 by blast
  show rad3: "\<forall>k \<in> set (gridBubbles (landed f s)). b_radius (heap (landed f s) k) = BUBBLE_RADIUS"
    unfolding s3_def [symmetric]
  proof
    fix k assume "k \<in> set (gridBubbles s3)"
    with grid3 consider "k = f" | "k \<in> ?G" by auto
    then show "b_radius (heap s3 k) = BUBBLE_RADIUS"
    proof cases
      case 1
      then show ?thesis using r2 by (simp only: hf3)
    next
      case 2
      with b h3 [OF 2] show ?thesis by (simp add: gridBound_def)
    qed
  qed
  show "\<forall>a \<in> set (gridBubbles (landed f s)). getNeighbors (landed f s) a = []"
    using no_neighbors [OF g3 rad3] by simp
qed

lemma settle_landed:
  assumes "gameInv s" and "flyingBubble s = Some f"
  shows "settle f (s\<lparr> heap := (heap s)(f := wallCollision (advance (heap s f))) \<rparr>)
         = checkGameOver (checkFloatingBubbles ((landed f s)\<lparr> flyingBubble := None \<rparr>))"
proof -
  let ?s1 = "s\<lparr> heap := (heap s)(f := wallCollision (advance (heap s f))) \<rparr>"
  have s3: "(snapBubbleToGrid f (?s1\<lparr> heap := (heap ?s1)(f := (heap ?s1 f)\<lparr> b_isGrid := True \<rparr>) \<rparr>))
              \<lparr> gridBubbles := gridBubbles (snapBubbleToGrid f (?s1\<lparr> heap := (heap ?s1)(f := (heap ?s1 f)\<lparr> b_isGrid := True \<rparr>) \<rparr>)) @ [f] \<rparr>
            = landed f s"
    by (simp add: landed_def snapBubbleToGrid_def Let_def)
  have "f \<in> set (gridBubbles (landed f s))" by (simp add: landed_def Let_def)
  with landed_lonely(3) [OF assms] have "getNeighbors (landed f s) f = []" by simp
  then have m3: "checkMatches f (landed f s) = landed f s" by (rule lonely_checkMatches)
  show ?thesis by (rule settle_steps [OF refl s3 m3 refl])
qed

lemma settled_gameInv:
  assumes inv: "gameInv s" and Some: "flyingBubble s = Some f"
  defines "s6 \<equiv> checkFloatingBubbles ((landed f s)\<lparr> flyingBubble := None \<rparr>)"
  shows "gameInv s6"
    and "gridBubbles s6 = filter (\<lambda>k. b_y (heap (landed f s) k) \<le> BUBBLE_RADIUS * 2) (gridBubbles s @ [f])"
    and "\<forall>k \<in> set (gridBubbles s6). heap s6 k = heap (landed f s) k"
    and "flyingBubble s6 = None"
proof -
  define s3 where "s3 = landed f s"
  define s5 where "s5 = s3\<lparr> flyingBubble := None \<rparr>"
  from inv have b: "gridBound s" and fl: "flyingOk s" by (simp_all add: gameInv_def)
  from fl Some have f: "f < nextRef s" by (simp add: flyingOk_def)
  have g3: "gridOk s3" and rad3: "\<forall>k \<in> set (gridBubbles s3). b_radius (heap s3 k) = BUBBLE_RADIUS"
    and lonely3: "\<forall>a \<in> set (gridBubbles s3). getNeighbors s3 a = []"
    unfolding s3_def by (rule landed_lonely [OF inv Some])+
  have grid3: "gridBubbles s3 = gridBubbles s @ [f]" and next3: "nextRef s3 = nextRef s"
    by (simp_all add: s3_def landed_def Let_def)
  have f5: "gridBubbles s5 = gridBubbles s3" "heap s5 = heap s3" "nextRef s5 = nextRef s3"
    "flyingBubble s5 = None" by (simp_all add: s5_def)
  have lonely5: "\<forall>a \<in> set (gridBubbles s5). getNeighbors s5 a = []"
    using lonely3 by (simp add: f5 getNeighbors_cong [OF f5(2) f5(1)])
  have s6: "s6 = checkFloatingBubbles s5" by (simp add: s6_def s5_def s3_def)
  from lonely_checkFloatingBubbles [OF lonely5]
  have grid6: "gridBubbles s6 = filter (\<lambda>k. b_y (heap s3 k) \<le> BUBBLE_RADIUS * 2) (gridBubbles s3)"
    and heap6: "\<forall>k \<in> set (gridBubbles s6). heap s6 k = heap s3 k"
    and next6: "nextRef s6 = nextRef s" and fly6: "flyingBubble s6 = None"
    by (simp_all add: s6 f5 next3)
  have sub6: "k \<in> set (gridBubbles s3)" if "k \<in> set (gridBubbles s6)" for k
    using that unfolding grid6 by simp
  have low6: "b_y (heap s3 k) \<le> BUBBLE_RADIUS * 2" if "k \<in> set (gridBubbles s6)" for k
    using that unfolding grid6 by simp
  have h6: "heap s6 k = heap s3 k" if "k \<in> set (gridBubbles s6)" for k
    using heap6 that by simp
  from g3 have d3: "distinct (gridBubbles s3)" by (simp add: gridOk_def)
  have d6: "distinct (gridBubbles s6)" unfolding grid6 using d3 by simp
  have on6: "onCell (heap s6 a)" if "a \<in> set (gridBubbles s6)" for a
    using g3 sub6 [OF that] unfolding h6 [OF that] by (simp add: gridOk_def)
  have ce6: "cellOf (heap s6 a) \<noteq> cellOf (heap s6 c)"
    if "a \<in> set (gridBubbles s6)" "c \<in> set (gridBubbles s6)" "a \<noteq> c" for a c
    using g3 sub6 [OF that(1)] sub6 [OF that(2)] that(3)
    unfolding h6 [OF that(1)] h6 [OF that(2)] gridOk_def by blast
  have "gridOk s6" unfolding gridOk_def using d6 on6 ce6 by blast
  moreover have "gridBound s6"
    unfolding gridBound_def
  proof (intro ballI conjI)
    fix k assume k: "k \<in> set (gridBubbles s6)"
    from sub6 [OF k] grid3 have "k = f \<or> k \<in> set (gridBubbles s)" by auto
    then show "k < nextRef s6" using b f by (auto simp: next6 gridBound_def)
    show "b_radius (heap s6 k) = BUBBLE_RADIUS" using rad3 sub6 [OF k] by (simp only: h6 [OF k])
    from low6 [OF k] have "b_y (heap s3 k) \<le> 200" by (simp add: BUBBLE_RADIUS_def)
    then show "b_y (heap s6 k) \<le> 200" by (simp only: h6 [OF k])
  qed
  moreover have "flyingOk s6" by (simp add: flyingOk_def fly6)
  ultimately show "gameInv s6" by (simp add: gameInv_def)
  show "gridBubbles s6 = filter (\<lambda>k. b_y (heap (landed f s) k) \<le> BUBBLE_RADIUS * 2) (gridBubbles s @ [f])"
    using grid6 by (simp add: s3_def landed_def Let_def)
  show "\<forall>k \<in> set (gridBubbles s6). heap s6 k = heap (landed f s) k"
    using heap6 by (simp only: s3_def)
  show "flyingBubble s6 = None" by (rule fly6)
qed

lemma updateGame_gameInv:
  assumes "gameInv s"
  shows "gameInv (updateGame s)"
proof (cases "flyingBubble s")
  case None
  with assms show ?thesis by (simp add: updateGame_def)
next
  case (Some f)
  let ?G = "set (gridBubbles s)"
  let ?b0 = "heap s f"
  let ?b1 = "wallCollision (advance ?b0)"
  let ?s1 = "s\<lparr> heap := (heap s)(f := ?b1) \<rparr>"
  from assms have g: "gridOk s" and b: "gridBound s" and fl: "flyingOk s"
    by (simp_all add: gameInv_def)
  from fl Some have f: "f < nextRef s" "f \<notin> ?G" "b_radius ?b0 = BUBBLE_RADIUS"
    "BUBBLE_RADIUS \<le> b_x ?b0" "b_x ?b0 \<le> CANVAS_WIDTH - BUBBLE_RADIUS"
    "(b_vx ?b0)\<^sup>2 + (b_vy ?b0)\<^sup>2 \<le> SHOOT_SPEED\<^sup>2"
    and apart: "\<forall>k \<in> ?G. \<not> isCollidingWith ?b0 (heap s k)"
    by (simp_all add: flyingOk_def)
  from move_bounds [OF f(3,4,5)]
  have m: "b_radius ?b1 = BUBBLE_RADIUS" "BUBBLE_RADIUS \<le> b_x ?b1" "b_x ?b1 \<le> CANVAS_WIDTH - BUBBLE_RADIUS"
    "(b_vx ?b1)\<^sup>2 + (b_vy ?b1)\<^sup>2 = (b_vx ?b0)\<^sup>2 + (b_vy ?b0)\<^sup>2"
    "(b_x ?b1 - b_x ?b0)\<^sup>2 + (b_y ?b1 - b_y ?b0)\<^sup>2 \<le> (b_vx ?b0)\<^sup>2 + (b_vy ?b0)\<^sup>2"
    by simp_all
  have step: "(b_x ?b1 - b_x ?b0)\<^sup>2 + (b_y ?b1 - b_y ?b0)\<^sup>2 \<le> 100"
    using m(5) f(6) by (simp add: SHOOT_SPEED_def)
  have upd: "updateGame s =
      (if b_y (heap ?s1 f) - b_radius (heap ?s1 f) < 0 \<or> collisionWithGrid ?s1 f
       then settle f ?s1 else ?s1)"
    by (rule updateGame_flying [OF Some refl])
  show ?thesis
  proof (cases "b_y (heap ?s1 f) - b_radius (heap ?s1 f) < 0 \<or> collisionWithGrid ?s1 f")
    case False
    have nc: "\<forall>k \<in> ?G. \<not> isCollidingWith ?b1 (heap s k)"
    proof
      fix k assume k: "k \<in> ?G"
      with f(2) have "heap ?s1 k = heap s k" by auto
      moreover from False k have "\<not> isCollidingWith (heap ?s1 f) (heap ?s1 k)"
        by (auto simp: collisionWithGrid_def list_ex_iff)
      ultimately show "\<not> isCollidingWith ?b1 (heap s k)" by simp
    qed
    have "gridOk ?s1" using g f(2) by (auto simp: gridOk_def)
    moreover have "gridBound ?s1" using b f(2) by (auto simp: gridBound_def)
    moreover have "flyingOk ?s1" using Some f m nc by (auto simp: flyingOk_def)
    ultimately show ?thesis using False upd by (simp add: gameInv_def)
  next
    case True
    from settled_gameInv(1) [OF assms Some]
    have "gameInv (checkGameOver (checkFloatingBubbles ((landed f s)\<lparr> flyingBubble := None \<rparr>)))"
      by (rule checkGameOver_gameInv)
    then show ?thesis using True upd by (simp add: settle_landed [OF assms Some])
  qed
qed

lemma gameLoop_gameInv:
  assumes "gameInv s"
  shows "gameInv (gameLoop s)"
proof -
  have "gameInv (drawGame (updateGame s))"
    by (intro drawGame_gameInv updateGame_gameInv assms)
  then show ?thesis
    unfolding gameLoop_steps [OF refl refl]
    by (rule gameInv_cong) (simp_all add: samePhysics_def)
qed

lemma animationFrame_gameInv:
  assumes "gameInv s"
  shows "gameInv (animationFrame h s)"
proof (cases "h \<in> set (frameRequests s)")
  case False
  with assms show ?thesis by (simp add: animationFrame_def)
next
  case True
  have "gameInv (s\<lparr> frameRequests := removeAll h (frameRequests s) \<rparr>)"
    by (rule gameInv_cong [OF assms]) (simp_all add: samePhysics_def)
  then have "gameInv (gameLoop (s\<lparr> frameRequests := removeAll h (frameRequests s) \<rparr>))"
    by (rule gameLoop_gameInv)
  with True show ?thesis by (simp add: animationFrame_def)
qed

lemma js_rem_nat: "js_rem (int r) 2 = int (r mod 2)"
  by (simp add: js_rem_def sgn_if zmod_int)

lemma initial_position:
  fixes r c :: nat
  defines "px \<equiv> (if r mod 2 = 0 then BUBBLE_RADIUS else BUBBLE_RADIUS + BUBBLE_RADIUS) + real c * BUBBLE_DIAMETER"
    and "py \<equiv> BUBBLE_RADIUS + real r * (BUBBLE_DIAMETER * sqrt 3 / 2)"
  shows "getGridPosition px py = \<lparr> s_x = px, s_y = py, s_row = int r, s_col = int c \<rparr>"
proof -
  let ?h = "BUBBLE_DIAMETER * sqrt 3 / 2"
  have d: "BUBBLE_DIAMETER \<noteq> 0" by (simp add: BUBBLE_DIAMETER_def BUBBLE_RADIUS_def)
  have h: "?h \<noteq> 0" using d by simp
  have "(py - BUBBLE_RADIUS) / ?h = of_int (int r)" unfolding py_def using h by simp
  then have row: "round ((py - BUBBLE_RADIUS) / ?h) = int r" by (simp only: round_of_int)
  have e: "real_of_int (js_rem (int r) 2) * BUBBLE_RADIUS
           = (if r mod 2 = 0 then 0 else BUBBLE_RADIUS)"
    unfolding js_rem_nat by (cases "r mod 2 = 0") (simp_all add: mod_2_eq_odd)
  have "(px - BUBBLE_RADIUS - real_of_int (js_rem (int r) 2) * BUBBLE_RADIUS) / BUBBLE_DIAMETER
        = of_int (int c)"
    unfolding e px_def using d by simp
  then have col: "round ((px - BUBBLE_RADIUS - real_of_int (js_rem (int r) 2) * BUBBLE_RADIUS) / BUBBLE_DIAMETER) = int c"
    by (simp only: round_of_int)
  have x: "BUBBLE_RADIUS + real_of_int (int c) * BUBBLE_DIAMETER
             + real_of_int (js_rem (int r) 2) * BUBBLE_RADIUS = px"
    unfolding e px_def by simp
  have y: "BUBBLE_RADIUS + real_of_int (int r) * ?h = py" unfolding py_def by simp
  show ?thesis
    unfolding getGridPosition_def Let_def row col x y ..
qed


lemma sqrt3_le_2: "sqrt 3 \<le> 2"
  by (rule real_le_lsqrt) simp_all

lemma initialCell_initInv:
  assumes inv: "initInv s P" and new: "(r, c) \<notin> P" and row: "r < INITIAL_GRID_ROWS"
  shows "initInv (fst (initialCell draws (s, k) (r, c))) (insert (r, c) P)"
proof -
  define px where "px = (if r mod 2 = 0 then BUBBLE_RADIUS else BUBBLE_RADIUS + BUBBLE_RADIUS)
                          + real c * BUBBLE_DIAMETER"
  define py where "py = BUBBLE_RADIUS + real r * (BUBBLE_DIAMETER * sqrt 3 / 2)"
  define nb where "nb = newBubble px py (getRandomBubbleColor s (draws k)) True"
  define s' where "s' = s\<lparr> heap := (heap s)(nextRef s := nb), nextRef := nextRef s + 1,
                       bubbles := bubbles s @ [nextRef s], gridBubbles := gridBubbles s @ [nextRef s] \<rparr>"
  from inv have g: "gridOk s" and b: "gridBound s" and fl: "flyingBubble s = None"
    and cells: "\<forall>g \<in> set (gridBubbles s). \<exists>r c. (r, c) \<in> P \<and> cellOf (heap s g) = (int r, int c)"
    by (simp_all add: initInv_def)
  have weaken: "initInv s (insert (r, c) P)"
    using g b fl cells unfolding initInv_def by blast
  have res: "fst (initialCell draws (s, k) (r, c)) = s \<or> fst (initialCell draws (s, k) (r, c)) = s'"
    by (simp add: initialCell_def Let_def s'_def nb_def px_def py_def)
  have "initInv s' (insert (r, c) P)"
  proof -
    have pos: "getGridPosition px py = \<lparr> s_x = px, s_y = py, s_row = int r, s_col = int c \<rparr>"
      unfolding px_def py_def by (rule initial_position)
    have nbf: "b_x nb = px" "b_y nb = py" "b_radius nb = BUBBLE_RADIUS"
      by (simp_all add: nb_def newBubble_def)
    have on: "onCell nb" and ce: "cellOf nb = (int r, int c)"
      by (simp_all add: onCell_def cellOf_def nbf pos)
    have fresh: "nextRef s \<notin> set (gridBubbles s)" using b by (auto simp: gridBound_def)
    have fields: "set (gridBubbles s') = insert (nextRef s) (set (gridBubbles s))"
      "nextRef s' = nextRef s + 1" "flyingBubble s' = None" "heap s' (nextRef s) = nb"
      "distinct (gridBubbles s')"
      using fl fresh g by (simp_all add: s'_def gridOk_def)
    have old: "heap s' x = heap s x" if "x \<in> set (gridBubbles s)" for x
      using that fresh by (auto simp: s'_def)
    have cell': "\<exists>r' c'. (r', c') \<in> insert (r, c) P \<and> cellOf (heap s' x) = (int r', int c')"
      if "x \<in> set (gridBubbles s')" for x
    proof (cases "x = nextRef s")
      case True
      then show ?thesis using ce fields(4) by auto
    next
      case False
      with that fields(1) have x: "x \<in> set (gridBubbles s)" by simp
      with cells obtain r' c' where "(r', c') \<in> P" "cellOf (heap s x) = (int r', int c')" by blast
      then show ?thesis using old [OF x] by auto
    qed
    have other: "cellOf (heap s x) \<noteq> (int r, int c)" if x: "x \<in> set (gridBubbles s)" for x
    proof -
      from cells x obtain r' c' where rc: "(r', c') \<in> P" "cellOf (heap s x) = (int r', int c')" by blast
      with new have "(r', c') \<noteq> (r, c)" by auto
      then show ?thesis using rc(2) by auto
    qed
    have on': "onCell (heap s' x)" if "x \<in> set (gridBubbles s')" for x
    proof (cases "x = nextRef s")
      case True
      then show ?thesis using on fields(4) by simp
    next
      case False
      with that fields(1) have x: "x \<in> set (gridBubbles s)" by simp
      with g show ?thesis by (simp add: old [OF x] gridOk_def)
    qed
    have ce': "cellOf (heap s' x) \<noteq> cellOf (heap s' z)"
      if x: "x \<in> set (gridBubbles s')" and z: "z \<in> set (gridBubbles s')" and ne: "x \<noteq> z" for x z
    proof (cases "x = nextRef s")
      case True
      with ne z fields(1) have zG: "z \<in> set (gridBubbles s)" by auto
      from other [OF zG] show ?thesis unfolding True fields(4) ce old [OF zG] by (rule not_sym)
    next
      case xf: False
      with x fields(1) have xG: "x \<in> set (gridBubbles s)" by simp
      show ?thesis
      proof (cases "z = nextRef s")
        case True
        from other [OF xG] show ?thesis unfolding True fields(4) ce old [OF xG] .
      next
        case False
        with z fields(1) have zG: "z \<in> set (gridBubbles s)" by simp
        from g xG zG ne have "cellOf (heap s x) \<noteq> cellOf (heap s z)" unfolding gridOk_def by blast
        then show ?thesis unfolding old [OF xG] old [OF zG] .
      qed
    qed
    have g': "gridOk s'" unfolding gridOk_def using fields(5) on' ce' by blast
    have "real r \<le> 4" using row by (simp add: INITIAL_GRID_ROWS_def)
    then have "real r * (20 * sqrt 3) \<le> 4 * (20 * 2)"
      using sqrt3_le_2 by (intro mult_mono) simp_all
    then have py: "py \<le> 200" by (simp add: py_def BUBBLE_RADIUS_def BUBBLE_DIAMETER_def)
    have b': "gridBound s'"
      unfolding gridBound_def
    proof (intro ballI)
      fix x assume "x \<in> set (gridBubbles s')"
      with fields(1) consider "x = nextRef s" | "x \<in> set (gridBubbles s)" by auto
      then show "x < nextRef s' \<and> b_radius (heap s' x) = BUBBLE_RADIUS \<and> b_y (heap s' x) \<le> 200"
      proof cases
        case 1
        then show ?thesis using nbf py fields by simp
      next
        case 2
        with b show ?thesis by (simp add: old [OF 2] fields gridBound_def less_Suc_eq)
      qed
    qed
    from g' b' fields(3) cell' show ?thesis unfolding initInv_def by blast
  qed
  with weaken res show ?thesis by auto
qed

lemma foldl_initialCell_initInv:
  "initInv s P \<Longrightarrow> distinct cells \<Longrightarrow> set cells \<inter> P = {} \<Longrightarrow>
   \<forall>rc \<in> set cells. fst rc < INITIAL_GRID_ROWS \<Longrightarrow>
   initInv (fst (foldl (initialCell draws) (s, k) cells)) (P \<union> set cells)"
proof (induction cells arbitrary: s k P)
  case Nil
  then show ?case by simp
next
  case (Cons rc cells)
  obtain r c where rc: "rc = (r, c)" by (cases rc)
  obtain s' k' where st: "initialCell draws (s, k) (r, c) = (s', k')"
    by (cases "initialCell draws (s, k) (r, c)")
  from Cons.prems rc have "(r, c) \<notin> P" "r < INITIAL_GRID_ROWS" by auto
  from initialCell_initInv [OF Cons.prems(1) this, of draws k]
  have "initInv s' (insert (r, c) P)" by (simp add: st)
  from Cons.IH [OF this, of k'] Cons.prems rc
  have "initInv (fst (foldl (initialCell draws) (s', k') cells)) (insert (r, c) P \<union> set cells)"
    by auto
  then show ?case by (simp add: rc st)
qed

lemma initialCells_distinct:
  "distinct initialCells \<and> (\<forall>rc \<in> set initialCells. fst rc < INITIAL_GRID_ROWS)"
proof -
  have "distinct (concat (map (\<lambda>r. map (Pair r) (f r)) rs))"
    if "distinct rs" "\<forall>r \<in> set rs. distinct (f r)" for f :: "nat \<Rightarrow> nat list" and rs
    using that by (induction rs) (auto simp: distinct_map inj_on_def)
  then have "distinct initialCells" unfolding initialCells_def by simp
  moreover have "\<forall>rc \<in> set initialCells. fst rc < INITIAL_GRID_ROWS"
    by (auto simp: initialCells_def)
  ultimately show ?thesis by simp
qed

lemma initGame_gameInv: "gameInv (initGame draws)"
proof -
  have "initInv loadedGame {}"
    by (simp add: initInv_def gridOk_def gridBound_def loadedGame_def)
  from foldl_initialCell_initInv [OF this, of initialCells draws 0] initialCells_distinct
  have "initInv (generateInitialGrid draws loadedGame) (set initialCells)"
    by (simp add: generateInitialGrid_def)
  then have g: "gameInv (generateInitialGrid draws loadedGame)"
    by (simp add: initInv_def gameInv_def flyingOk_def)
  show ?thesis
    by (rule gameInv_cong [OF g])
       (simp_all add: initGame_def Let_def requestAnimationFrame_def samePhysics_def)
qed

lemma reachable_gameInv: "reachable s \<Longrightarrow> gameInv s"
  by (induction rule: reachable.induct)
     (simp_all add: initGame_gameInv handleAim_gameInv handleShoot_gameInv animationFrame_gameInv)

subsection \<open>What a tick moves\<close>

text \<open>A tick changes the position of no bubble but the flying one.\<close>

lemma popEach_position: "samePosition (heap (popEach ms s) b) (heap s b)"
proof (induction ms arbitrary: s)
  case Nil
  show ?case by (simp add: samePosition_def)
next
  case (Cons m ms)
  let ?s1 = "s\<lparr> heap := (heap s)(m := (heap s m)\<lparr> b_isPopping := True \<rparr>),
                gridBubbles := remove1 m (gridBubbles s) \<rparr>"
  have "samePosition (heap ?s1 b) (heap s b)" by (simp add: samePosition_def)
  with Cons.IH [of ?s1] show ?case by (simp add: samePosition_def)
qed

lemma checkMatches_position: "samePosition (heap (checkMatches f s) b) (heap s b)"
proof -
  have "samePosition (heap (popBubbles ms s) b) (heap s b)" for ms
    using popEach_position [of ms "s\<lparr> score := score s + int (length ms) * POP_SCORE \<rparr>" b]
    by (simp add: popBubbles_def samePosition_def)
  then show ?thesis by (simp add: checkMatches_def Let_def samePosition_def)
qed

lemma checkFloatingBubbles_position: "samePosition (heap (checkFloatingBubbles s) b) (heap s b)"
  by (simp add: checkFloatingBubbles_eq dropped_def samePosition_def)

lemma settle_position:
  assumes "b \<noteq> f"
  shows "samePosition (heap (settle f s) b) (heap s b)"
proof -
  let ?s3 = "(snapBubbleToGrid f (s\<lparr> heap := (heap s)(f := (heap s f)\<lparr> b_isGrid := True \<rparr>) \<rparr>))
               \<lparr> gridBubbles := gridBubbles (snapBubbleToGrid f (s\<lparr> heap := (heap s)(f := (heap s f)\<lparr> b_isGrid := True \<rparr>) \<rparr>)) @ [f] \<rparr>"
  let ?s5 = "(checkMatches f ?s3)\<lparr> flyingBubble := None \<rparr>"
  have 3: "heap ?s3 b = heap s b" using assms by (simp add: snapBubbleToGrid_def Let_def)
  have 4: "samePosition (heap ?s5 b) (heap ?s3 b)" using checkMatches_position [of f ?s3 b] by simp
  have 6: "samePosition (heap (checkFloatingBubbles ?s5) b) (heap ?s5 b)"
    by (rule checkFloatingBubbles_position)
  have "settle f s = checkGameOver (checkFloatingBubbles ?s5)"
    by (rule settle_steps [OF refl refl refl refl])
  then have "heap (settle f s) = heap (checkFloatingBubbles ?s5)"
    using checkGameOver_fields [of "checkFloatingBubbles ?s5"] by simp
  with 3 4 6 show ?thesis by (simp add: samePosition_def)
qed

lemma updateGame_position:
  assumes "flyingBubble s \<noteq> Some b"
  shows "samePosition (heap (updateGame s) b) (heap s b)"
proof (cases "flyingBubble s")
  case None
  then show ?thesis by (simp add: updateGame_def samePosition_def)
next
  case (Some f)
  with assms have ne: "b \<noteq> f" by auto
  let ?s1 = "s\<lparr> heap := (heap s)(f := wallCollision (advance (heap s f))) \<rparr>"
  have 1: "heap ?s1 b = heap s b" using ne by simp
  from settle_position [OF ne, of ?s1] 1
  have "samePosition (heap (settle f ?s1) b) (heap s b)" by (simp add: samePosition_def)
  with 1 show ?thesis
    unfolding updateGame_flying [OF Some refl] by (simp add: samePosition_def)
qed

lemma gameLoop_position:
  assumes "flyingBubble s \<noteq> Some b"
  shows "b_x (heap (gameLoop s) b) = b_x (heap s b) \<and> b_y (heap (gameLoop s) b) = b_y (heap s b)"
proof -
  from drawGame_fields [of "updateGame s"]
  have "samePhysics (heap (drawGame (updateGame s)) b) (heap (updateGame s) b)" by simp
  with updateGame_position [OF assms] show ?thesis
    unfolding gameLoop_steps [OF refl refl] by (simp add: samePosition_def samePhysics_def)
qed

subsection \<open>Play never pops and never ends\<close>

text \<open>
  In play no bubble is ever marked popping, no alert is ever shown, and the grid always
  keeps a bubble of the top row.
\<close>

lemma checkFloatingBubbles_noPop:
  "noPop s \<Longrightarrow> noPop (checkFloatingBubbles s)"
  by (simp add: checkFloatingBubbles_eq dropped_def noPop_def)

lemma checkFloatingBubbles_alerts:
  "alerts (checkFloatingBubbles s) = alerts s"
  by (simp add: checkFloatingBubbles_eq dropped_def)

lemma move_popping:
  "b_isPopping (wallCollision (advance b)) = b_isPopping b"
  by (simp add: wallCollision_def advance_def Let_def)

lemma drawGame_noPop:
  assumes "noPop s"
  shows "drawGame s = s"
proof -
  have keep: "list_all (\<lambda>b. \<not> b_isPopping (hp b)) bs \<Longrightarrow> filterPopping bs hp = (bs, hp)" for bs hp
    by (induction bs) simp_all
  have "list_all (\<lambda>b. \<not> b_isPopping (heap s b)) (bubbles s)"
    using assms by (simp add: noPop_def list_all_iff)
  from keep [OF this] show ?thesis by (simp add: drawGame_def drawBubbles_def)
qed

lemma checkGameOver_quiet:
  assumes "gridBound s" and "gridBubbles s \<noteq> []"
  shows "checkGameOver s = s"
proof -
  have "\<not> list_ex (\<lambda>k. b_y (heap s k) + b_radius (heap s k)
                     > CANVAS_HEIGHT - CANNON_HEIGHT - BUBBLE_RADIUS * 2) (gridBubbles s)"
    using assms(1)
    by (auto simp: list_ex_iff gridBound_def CANVAS_HEIGHT_def CANNON_HEIGHT_def BUBBLE_RADIUS_def)
  with assms(2) show ?thesis by (simp add: checkGameOver_def)
qed

lemma updateGame_settled:
  assumes inv: "gameInv s" and play: "playInv s" and Some: "flyingBubble s = Some f"
    and hit: "b_y (wallCollision (advance (heap s f))) - b_radius (wallCollision (advance (heap s f))) < 0
              \<or> (\<exists>g \<in> set (gridBubbles s). isCollidingWith (wallCollision (advance (heap s f))) (heap s g))"
  shows "updateGame s = checkFloatingBubbles ((landed f s)\<lparr> flyingBubble := None \<rparr>)"
proof -
  let ?b1 = "wallCollision (advance (heap s f))"
  let ?s1 = "s\<lparr> heap := (heap s)(f := ?b1) \<rparr>"
  let ?s6 = "checkFloatingBubbles ((landed f s)\<lparr> flyingBubble := None \<rparr>)"
  from inv Some have fG: "f \<notin> set (gridBubbles s)" by (simp add: gameInv_def flyingOk_def)
  have "collisionWithGrid ?s1 f \<longleftrightarrow> (\<exists>g \<in> set (gridBubbles s). isCollidingWith ?b1 (heap s g))"
    using fG by (auto simp: collisionWithGrid_def list_ex_iff)
  with hit have c: "b_y (heap ?s1 f) - b_radius (heap ?s1 f) < 0 \<or> collisionWithGrid ?s1 f" by simp
  from play obtain g where g: "g \<in> set (gridBubbles s)" "b_y (heap s g) \<le> BUBBLE_RADIUS * 2"
    by (auto simp: playInv_def)
  from g(1) fG have "heap (landed f s) g = heap s g" by (auto simp: landed_def Let_def)
  with g have "g \<in> set (gridBubbles ?s6)"
    unfolding settled_gameInv(2) [OF inv Some] by simp
  then have ne: "gridBubbles ?s6 \<noteq> []" by auto
  from settled_gameInv(1) [OF inv Some] have "gridBound ?s6" by (simp add: gameInv_def)
  from checkGameOver_quiet [OF this ne] have "checkGameOver ?s6 = ?s6" .
  with settle_landed [OF inv Some] have "settle f ?s1 = ?s6" by simp
  with c show ?thesis unfolding updateGame_flying [OF Some refl] by simp
qed

lemma updateGame_free:
  assumes Some: "flyingBubble s = Some f" and fG: "f \<notin> set (gridBubbles s)"
    and miss: "\<not> (b_y (wallCollision (advance (heap s f))) - b_radius (wallCollision (advance (heap s f))) < 0
              \<or> (\<exists>g \<in> set (gridBubbles s). isCollidingWith (wallCollision (advance (heap s f))) (heap s g)))"
  shows "updateGame s = s\<lparr> heap := (heap s)(f := wallCollision (advance (heap s f))) \<rparr>"
proof -
  let ?b1 = "wallCollision (advance (heap s f))"
  let ?s1 = "s\<lparr> heap := (heap s)(f := ?b1) \<rparr>"
  have "collisionWithGrid ?s1 f \<longleftrightarrow> (\<exists>g \<in> set (gridBubbles s). isCollidingWith ?b1 (heap s g))"
    using fG by (auto simp: collisionWithGrid_def list_ex_iff)
  with miss have c: "\<not> (b_y (heap ?s1 f) - b_radius (heap ?s1 f) < 0 \<or> collisionWithGrid ?s1 f)" by simp
  then show ?thesis unfolding updateGame_flying [OF Some refl] by simp
qed

lemma updateGame_playInv:
  assumes inv: "gameInv s" and play: "playInv s"
  shows "playInv (updateGame s)"
proof (cases "flyingBubble s")
  case None
  with play show ?thesis by (simp add: updateGame_def)
next
  case (Some f)
  let ?b1 = "wallCollision (advance (heap s f))"
  from inv Some have fG: "f \<notin> set (gridBubbles s)" by (simp add: gameInv_def flyingOk_def)
  from play have np: "noPop s" and al: "alerts s = []" by (simp_all add: playInv_def)
  from play obtain g where g: "g \<in> set (gridBubbles s)" "b_y (heap s g) \<le> BUBBLE_RADIUS * 2"
    by (auto simp: playInv_def)
  from g(1) fG have gf: "g \<noteq> f" by auto
  show ?thesis
  proof (cases "b_y ?b1 - b_radius ?b1 < 0
                \<or> (\<exists>g \<in> set (gridBubbles s). isCollidingWith ?b1 (heap s g))")
    case False
    have "noPop (s\<lparr> heap := (heap s)(f := ?b1) \<rparr>)"
      using np by (simp add: noPop_def move_popping)
    with al g gf show ?thesis
      unfolding updateGame_free [OF Some fG False] by (auto simp: playInv_def)
  next
    case True
    let ?s6 = "checkFloatingBubbles ((landed f s)\<lparr> flyingBubble := None \<rparr>)"
    have hg: "heap (landed f s) g = heap s g" using gf by (simp add: landed_def Let_def)
    with g have in6: "g \<in> set (gridBubbles ?s6)"
      unfolding settled_gameInv(2) [OF inv Some] by simp
    with settled_gameInv(3) [OF inv Some] hg have "heap ?s6 g = heap s g" by simp
    with g(2) have "b_y (heap ?s6 g) \<le> BUBBLE_RADIUS * 2" by simp
    with in6 have ex: "\<exists>g \<in> set (gridBubbles ?s6). b_y (heap ?s6 g) \<le> BUBBLE_RADIUS * 2"
      by (rule bexI [rotated])
    have "noPop ((landed f s)\<lparr> flyingBubble := None \<rparr>)"
      using np by (simp add: noPop_def landed_def Let_def move_popping)
    then have "noPop ?s6" by (rule checkFloatingBubbles_noPop)
    moreover have "alerts ?s6 = []"
      using al by (simp add: checkFloatingBubbles_alerts landed_def Let_def)
    ultimately show ?thesis
      unfolding updateGame_settled [OF inv play Some True] using ex by (simp add: playInv_def)
  qed
qed

lemma gameLoop_noPop:
  assumes "noPop (updateGame s)"
  shows "gameLoop s =
     (updateGame s)\<lparr> frameRequests := frameRequests (updateGame s) @ [nextHandle (updateGame s)],
         nextHandle := nextHandle (updateGame s) + 1, animationFrameId := nextHandle (updateGame s) \<rparr>"
  by (rule gameLoop_steps [OF refl drawGame_noPop [OF assms]])

lemma playInv_cong:
  assumes "playInv s" and "heap s' = heap s" and "gridBubbles s' = gridBubbles s"
    and "alerts s' = alerts s"
  shows "playInv s'"
  using assms by (simp add: playInv_def noPop_def)

lemma animationFrame_playInv:
  assumes inv: "gameInv s" and play: "playInv s"
  shows "playInv (animationFrame h s)"
proof (cases "h \<in> set (frameRequests s)")
  case False
  with play show ?thesis by (simp add: animationFrame_def)
next
  case True
  let ?s = "s\<lparr> frameRequests := removeAll h (frameRequests s) \<rparr>"
  have i: "gameInv ?s" by (rule gameInv_cong [OF inv]) (simp_all add: samePhysics_def)
  have p: "playInv ?s" by (rule playInv_cong [OF play]) simp_all
  have u: "playInv (updateGame ?s)" by (rule updateGame_playInv [OF i p])
  then have "noPop (updateGame ?s)" by (simp add: playInv_def)
  from gameLoop_noPop [OF this] have "playInv (gameLoop ?s)"
    by (intro playInv_cong [OF u]) simp_all
  with True show ?thesis by (simp add: animationFrame_def)
qed

lemma handleAim_playInv: "playInv s \<Longrightarrow> playInv (handleAim coords s)"
  by (auto simp: handleAim_def Let_def playInv_def noPop_def)

lemma handleShoot_playInv:
  assumes inv: "gameInv s" and play: "playInv s"
  shows "playInv (handleShoot u s)"
proof (cases "flyingBubble s")
  case (Some f)
  with play show ?thesis by (simp add: handleShoot_def)
next
  case None
  from inv have fresh: "nextRef s \<notin> set (gridBubbles s)" by (auto simp: gameInv_def gridBound_def)
  from play obtain g where g: "g \<in> set (gridBubbles s)" "b_y (heap s g) \<le> BUBBLE_RADIUS * 2"
    by (auto simp: playInv_def)
  with fresh have "g \<noteq> nextRef s" by auto
  with g play None show ?thesis
    by (auto simp: handleShoot_def Let_def playInv_def noPop_def newBubble_def)
qed

text \<open>The initial grid: which cells are filled, and where their bubbles are.\<close>

lemma initialCell_initPos:
  assumes inv: "initPos s P" and row: "r < INITIAL_GRID_ROWS"
  shows "initPos (fst (initialCell draws (s, k) (r, c))) (insert (r, c) P)"
proof -
  define px where "px = (if r mod 2 = 0 then BUBBLE_RADIUS else BUBBLE_RADIUS + BUBBLE_RADIUS)
                          + real c * BUBBLE_DIAMETER"
  define py where "py = BUBBLE_RADIUS + real r * (BUBBLE_DIAMETER * sqrt 3 / 2)"
  define nb where "nb = newBubble px py (getRandomBubbleColor s (draws k)) True"
  define s' where "s' = s\<lparr> heap := (heap s)(nextRef s := nb), nextRef := nextRef s + 1,
                       bubbles := bubbles s @ [nextRef s], gridBubbles := gridBubbles s @ [nextRef s] \<rparr>"
  have cx: "centreX (int r) (int c) = px"
    unfolding centreX_def px_def js_rem_nat by (cases "r mod 2 = 0") (simp_all add: mod_2_eq_odd)
  have cy: "centreY (int r) = py" by (simp add: centreY_def py_def)
  have "real r \<le> 4" using row by (simp add: INITIAL_GRID_ROWS_def)
  then have "real r * (20 * sqrt 3) \<le> 4 * (20 * 2)"
    using sqrt3_le_2 by (intro mult_mono) simp_all
  then have py: "py < CANVAS_HEIGHT / 2"
    by (simp add: py_def BUBBLE_RADIUS_def BUBBLE_DIAMETER_def CANVAS_HEIGHT_def)
  have px: "px < CANVAS_WIDTH - BUBBLE_RADIUS \<longleftrightarrow> c < 9"
  proof
    assume "c < 9"
    then have "real c \<le> 8" by simp
    then show "px < CANVAS_WIDTH - BUBBLE_RADIUS"
      by (simp add: px_def BUBBLE_RADIUS_def BUBBLE_DIAMETER_def CANVAS_WIDTH_def)
  next
    assume a: "px < CANVAS_WIDTH - BUBBLE_RADIUS"
    show "c < 9"
    proof (rule ccontr)
      assume "\<not> c < 9"
      then have "9 \<le> real c" by simp
      with a show False
        by (simp add: px_def BUBBLE_RADIUS_def BUBBLE_DIAMETER_def CANVAS_WIDTH_def split: if_splits)
    qed
  qed
  have res: "fst (initialCell draws (s, k) (r, c)) = (if c < 9 then s' else s)"
    using px py by (simp add: initialCell_def Let_def s'_def nb_def px_def py_def)
  from inv have old: "\<forall>g \<in> set (gridBubbles s). g < nextRef s
         \<and> (\<exists>r c. (r, c) \<in> P \<and> c < 9 \<and> b_x (heap s g) = centreX (int r) (int c)
                  \<and> b_y (heap s g) = centreY (int r))"
    and at: "\<forall>r c. (r, c) \<in> P \<and> c < 9 \<longrightarrow> gridAt s (centreX (int r) (int c)) (centreY (int r))"
    and rest: "noPop s" "alerts s = []" "frameRequests s = []" "nextHandle s = 1"
    by (simp_all add: initPos_def)
  show ?thesis
  proof (cases "c < 9")
    case False
    have "initPos s (insert (r, c) P)"
      unfolding initPos_def using old at rest False by blast
    with False res show ?thesis by simp
  next
    case True
    have keep: "heap s' g = heap s g" if "g \<in> set (gridBubbles s)" for g
      using old that by (auto simp: s'_def)
    have nbf: "b_x nb = px" "b_y nb = py" "\<not> b_isPopping nb" by (simp_all add: nb_def newBubble_def)
    have new: "heap s' (nextRef s) = nb" "set (gridBubbles s') = insert (nextRef s) (set (gridBubbles s))"
      "nextRef s' = nextRef s + 1"
      by (simp_all add: s'_def)
    have 1: "g < nextRef s'
         \<and> (\<exists>r' c'. (r', c') \<in> insert (r, c) P \<and> c' < 9 \<and> b_x (heap s' g) = centreX (int r') (int c')
                  \<and> b_y (heap s' g) = centreY (int r'))" if "g \<in> set (gridBubbles s')" for g
    proof (cases "g = nextRef s")
      case g: True
      have "(r, c) \<in> insert (r, c) P \<and> c < 9 \<and> b_x (heap s' g) = centreX (int r) (int c)
                  \<and> b_y (heap s' g) = centreY (int r)"
        using True by (simp add: g new nbf cx cy)
      then have "\<exists>r' c'. (r', c') \<in> insert (r, c) P \<and> c' < 9
            \<and> b_x (heap s' g) = centreX (int r') (int c') \<and> b_y (heap s' g) = centreY (int r')"
        by blast
      then show ?thesis unfolding new(3) g by simp
    next
      case False
      with that new(2) have g: "g \<in> set (gridBubbles s)" by simp
      with old keep [OF g] show ?thesis unfolding new(3) by fastforce
    qed
    have grow: "gridAt s' x y" if "gridAt s x y" for x y
      using that keep unfolding gridAt_def new(2) by fastforce
    have here: "gridAt s' (centreX (int r) (int c)) (centreY (int r))"
      unfolding gridAt_def new(2) using new(1) nbf by (simp add: cx cy)
    have 2: "gridAt s' (centreX (int r') (int c')) (centreY (int r'))"
      if "(r', c') \<in> insert (r, c) P \<and> c' < 9" for r' c'
      using that here grow at by blast
    have 3: "noPop s'" "alerts s' = []" "frameRequests s' = []" "nextHandle s' = 1"
      using rest nbf by (simp_all add: s'_def noPop_def)
    have "initPos s' (insert (r, c) P)"
      unfolding initPos_def using 1 2 3 by blast
    with True res show ?thesis by simp
  qed
qed

lemma foldl_initialCell_initPos:
  "initPos s P \<Longrightarrow> \<forall>rc \<in> set cells. fst rc < INITIAL_GRID_ROWS \<Longrightarrow>
   initPos (fst (foldl (initialCell draws) (s, k) cells)) (P \<union> set cells)"
proof (induction cells arbitrary: s k P)
  case Nil
  then show ?case by simp
next
  case (Cons rc cells)
  obtain r c where rc: "rc = (r, c)" by (cases rc)
  obtain s' k' where st: "initialCell draws (s, k) (r, c) = (s', k')"
    by (cases "initialCell draws (s, k) (r, c)")
  from Cons.prems rc have "r < INITIAL_GRID_ROWS" by auto
  from initialCell_initPos [OF Cons.prems(1) this, of draws k c]
  have "initPos s' (insert (r, c) P)" by (simp add: st)
  from Cons.IH [OF this, of k'] Cons.prems rc
  have "initPos (fst (foldl (initialCell draws) (s', k') cells)) (insert (r, c) P \<union> set cells)"
    by auto
  then show ?case by (simp add: rc st)
qed

lemma generateInitialGrid_initPos:
  "initPos (generateInitialGrid draws loadedGame) (set initialCells)"
proof -
  have "initPos loadedGame {}"
    by (simp add: initPos_def loadedGame_def noPop_def newBubble_def)
  from foldl_initialCell_initPos [OF this, of initialCells draws 0] initialCells_distinct
  show ?thesis by (simp add: generateInitialGrid_def)
qed

lemma initGame_fields:
  "gridBubbles (initGame draws) = gridBubbles (generateInitialGrid draws loadedGame)"
  "heap (initGame draws) = heap (generateInitialGrid draws loadedGame)"
  "nextRef (initGame draws) = nextRef (generateInitialGrid draws loadedGame)"
  "alerts (initGame draws) = []"
  "frameRequests (initGame draws) = [1]"
  "nextHandle (initGame draws) = 2"
  "animationFrameId (initGame draws) = 1"
  using generateInitialGrid_initPos [of draws]
  by (simp_all add: initGame_def Let_def requestAnimationFrame_def initPos_def)

lemma initGame_cells:
  assumes "g \<in> set (gridBubbles (initGame draws))"
  shows "g < nextRef (initGame draws)
     \<and> (\<exists>r c. r < 5 \<and> c < 9 \<and> b_x (heap (initGame draws) g) = centreX (int r) (int c)
              \<and> b_y (heap (initGame draws) g) = centreY (int r))"
proof -
  from generateInitialGrid_initPos [of draws] assms
  obtain r c where "g < nextRef (initGame draws)" "(r, c) \<in> set initialCells" "c < 9"
    "b_x (heap (initGame draws) g) = centreX (int r) (int c)"
    "b_y (heap (initGame draws) g) = centreY (int r)"
    unfolding initPos_def initGame_fields by blast
  moreover from this(2) initialCells_distinct have "r < 5" by (auto simp: INITIAL_GRID_ROWS_def)
  ultimately show ?thesis by blast
qed

lemma initGame_gridAt:
  assumes "r < 5" "c < 9"
  shows "gridAt (initGame draws) (centreX (int r) (int c)) (centreY (int r))"
proof -
  have "\<exists>x \<in> {0..<5}. (x mod 2 = 0 \<longrightarrow> (r, c) \<in> Pair x ` {0..<10})
           \<and> (x mod 2 = Suc 0 \<longrightarrow> (r, c) \<in> Pair x ` {0..<9})"
    using assms by (intro bexI [of _ r]) auto
  then have "(r, c) \<in> set initialCells"
    by (simp add: initialCells_def INITIAL_GRID_ROWS_def GRID_COLS_def)
  with generateInitialGrid_initPos [of draws] assms(2)
  have "gridAt (generateInitialGrid draws loadedGame) (centreX (int r) (int c)) (centreY (int r))"
    unfolding initPos_def by blast
  then show ?thesis by (simp add: gridAt_def initGame_fields)
qed

lemma initGame_playInv: "playInv (initGame draws)"
proof -
  from initGame_gridAt [of 0 0 draws]
  have "gridAt (initGame draws) (centreX 0 0) (centreY 0)" by simp
  then have "\<exists>g \<in> set (gridBubbles (initGame draws)). b_y (heap (initGame draws) g) \<le> BUBBLE_RADIUS * 2"
    unfolding gridAt_def centreY_def BUBBLE_RADIUS_def by force
  moreover have "noPop (initGame draws)"
    using generateInitialGrid_initPos [of draws] by (simp add: initPos_def noPop_def initGame_fields)
  ultimately show ?thesis by (simp add: playInv_def initGame_fields)
qed

lemma reachable_playInv: "reachable s \<Longrightarrow> playInv s"
proof (induction rule: reachable.induct)
  case (start draws)
  show ?case by (rule initGame_playInv)
next
  case (aim s coords)
  then show ?case by (simp add: handleAim_playInv)
next
  case (shoot s u)
  then show ?case by (simp add: handleShoot_playInv reachable_gameInv)
next
  case (frame s h)
  then show ?case by (simp add: animationFrame_playInv reachable_gameInv)
qed


lemma reachable_no_match:
  assumes "reachable s" and "b \<in> set (gridBubbles s)"
  shows "getNeighbors s b = [] \<and> getConnectedSameColorBubbles s b = [b] \<and> checkMatches b s = s"
proof -
  from reachable_gameInv [OF assms(1)] have g: "gridOk s" and b: "gridBound s"
    by (simp_all add: gameInv_def)
  from b have "\<forall>g \<in> set (gridBubbles s). b_radius (heap s g) = BUBBLE_RADIUS"
    by (simp add: gridBound_def)
  from no_neighbors [OF g this assms(2)] have n: "getNeighbors s b = []" .
  from getConnectedSameColorBubbles_correct [of s b] lonely_component [OF n]
  have "set (getConnectedSameColorBubbles s b) = {b}" "distinct (getConnectedSameColorBubbles s b)"
    by simp_all
  then have "getConnectedSameColorBubbles s b = [b]"
    by (cases "getConnectedSameColorBubbles s b") (auto split: if_splits simp: subset_singleton_iff)
  with n lonely_checkMatches [OF n] show ?thesis by simp
qed

lemma reachable_never_over:
  assumes "reachable s"
  shows "alerts s = [] \<and> checkGameOver s = s \<and> noPop s"
proof -
  from reachable_playInv [OF assms] have p: "playInv s" .
  then have "gridBubbles s \<noteq> []" by (auto simp: playInv_def)
  moreover from reachable_gameInv [OF assms] have "gridBound s" by (simp add: gameInv_def)
  ultimately have "checkGameOver s = s" by (intro checkGameOver_quiet)
  with p show ?thesis by (simp add: playInv_def)
qed

subsection \<open>Frames of a flight\<close>

lemma reachable_frames: "reachable s \<Longrightarrow> reachable (frames n s)"
  by (induction n) (simp_all add: reachable.frame)

lemma flightState_same:
  assumes "heap s f = b" "frameRequests s = [h]" "nextHandle s = Suc h" "animationFrameId s = h"
  shows "flightState s f b h = s"
  using assms by (intro Game.equality) (auto simp: flightState_def)

lemma flightState_fields:
  "heap (flightState s f b h) f = b"
  "g \<noteq> f \<Longrightarrow> heap (flightState s f b h) g = heap s g"
  "gridBubbles (flightState s f b h) = gridBubbles s"
  "flyingBubble (flightState s f b h) = flyingBubble s"
  "animationFrameId (flightState s f b h) = h"
  "frameRequests (flightState s f b h) = [h]"
  "nextHandle (flightState s f b h) = Suc h"
  "score (flightState s f b h) = score s"
  "nextRef (flightState s f b h) = nextRef s"
  by (simp_all add: flightState_def)

lemma tick_free:
  assumes Some: "flyingBubble s = Some f" and fG: "f \<notin> set (gridBubbles s)"
    and np: "noPop s" "\<not> b_isPopping b"
    and miss: "\<not> (b_y (wallCollision (advance b)) - b_radius (wallCollision (advance b)) < 0
              \<or> (\<exists>g \<in> set (gridBubbles s). isCollidingWith (wallCollision (advance b)) (heap s g)))"
  shows "animationFrame h (flightState s f b h) = flightState s f (wallCollision (advance b)) (Suc h)"
proof -
  define q where "q = (flightState s f b h)\<lparr> frameRequests := removeAll h (frameRequests (flightState s f b h)) \<rparr>"
  have q: "flyingBubble q = Some f" "gridBubbles q = gridBubbles s" "heap q f = b"
    "frameRequests q = []" "nextHandle q = Suc h"
    using Some by (simp_all add: q_def flightState_def)
  have hq: "heap q g = heap s g" if "g \<in> set (gridBubbles s)" for g
    using that fG by (auto simp: q_def flightState_def)
  have m: "\<not> (b_y (wallCollision (advance (heap q f))) - b_radius (wallCollision (advance (heap q f))) < 0
              \<or> (\<exists>g \<in> set (gridBubbles q). isCollidingWith (wallCollision (advance (heap q f))) (heap q g)))"
    using miss hq by (simp add: q)
  have fq: "f \<notin> set (gridBubbles q)" using fG by (simp add: q)
  have u: "updateGame q = q\<lparr> heap := (heap q)(f := wallCollision (advance b)) \<rparr>"
    using updateGame_free [OF q(1) fq m] by (simp add: q)
  have "noPop (updateGame q)"
    unfolding u using np by (simp add: noPop_def q_def flightState_def move_popping)
  from gameLoop_noPop [OF this]
  have "gameLoop q = flightState s f (wallCollision (advance b)) (Suc h)"
    unfolding u by (simp add: q_def flightState_def)
  then show ?thesis by (simp add: animationFrame_def q_def flightState_def)
qed

lemma frames_step_free:
  assumes "frames n s = flightState s0 f b h"
    and "flyingBubble s0 = Some f" and "f \<notin> set (gridBubbles s0)"
    and "noPop s0" "\<not> b_isPopping b"
    and "\<not> (b_y (wallCollision (advance b)) - b_radius (wallCollision (advance b)) < 0
              \<or> (\<exists>g \<in> set (gridBubbles s0). isCollidingWith (wallCollision (advance b)) (heap s0 g)))"
  shows "frames (Suc n) s = flightState s0 f (wallCollision (advance b)) (Suc h)"
  using tick_free [OF assms(2-6), of h] by (simp add: assms(1) flightState_fields)

lemma checkFloatingBubbles_frameRequests:
  "checkFloatingBubbles (s\<lparr> frameRequests := x \<rparr>) = (checkFloatingBubbles s)\<lparr> frameRequests := x \<rparr>"
proof -
  have "anchored (s\<lparr> frameRequests := x \<rparr>) = anchored s"
    by (simp add: anchored_def neighborEdge_def ceilingSeeds_def getNeighbors_def)
  then show ?thesis
    by (intro Game.equality) (simp_all add: checkFloatingBubbles_eq dropped_def floating_def cong: if_cong)
qed

lemma tick_settle:
  assumes inv: "gameInv s" and play: "playInv s" and Some: "flyingBubble s = Some f"
    and fr: "frameRequests s = [h]" "nextHandle s = Suc h"
    and hit: "b_y (wallCollision (advance (heap s f))) - b_radius (wallCollision (advance (heap s f))) < 0
              \<or> (\<exists>g \<in> set (gridBubbles s). isCollidingWith (wallCollision (advance (heap s f))) (heap s g))"
  shows "animationFrame h s = settledState s f (Suc h)"
proof -
  define q where "q = s\<lparr> frameRequests := [] \<rparr>"
  have i: "gameInv q" unfolding q_def by (rule gameInv_cong [OF inv]) (simp_all add: samePhysics_def)
  have p: "playInv q" unfolding q_def by (rule playInv_cong [OF play]) simp_all
  have q: "flyingBubble q = Some f" "heap q = heap s" "gridBubbles q = gridBubbles s"
    using Some by (simp_all add: q_def)
  have hq: "b_y (wallCollision (advance (heap q f))) - b_radius (wallCollision (advance (heap q f))) < 0
              \<or> (\<exists>g \<in> set (gridBubbles q). isCollidingWith (wallCollision (advance (heap q f))) (heap q g))"
    using hit by (simp add: q)
  have l: "(landed f q)\<lparr> flyingBubble := None \<rparr> = ((landed f s)\<lparr> flyingBubble := None \<rparr>)\<lparr> frameRequests := [] \<rparr>"
    by (simp add: landed_def Let_def q_def)
  have u: "updateGame q = (checkFloatingBubbles ((landed f s)\<lparr> flyingBubble := None \<rparr>))\<lparr> frameRequests := [] \<rparr>"
    unfolding updateGame_settled [OF i p q(1) hq] l checkFloatingBubbles_frameRequests ..
  from updateGame_playInv [OF i p] have "noPop (updateGame q)" by (simp add: playInv_def)
  from gameLoop_noPop [OF this]
  have "gameLoop q = settledState s f (Suc h)"
    unfolding u
    by (simp add: settledState_def checkFloatingBubbles_eq dropped_def landed_def Let_def fr)
  then show ?thesis using fr by (simp add: animationFrame_def q_def)
qed

lemma move_free:
  assumes "b_radius b = BUBBLE_RADIUS" "BUBBLE_RADIUS \<le> b_x b + b_vx b"
    "b_x b + b_vx b \<le> CANVAS_WIDTH - BUBBLE_RADIUS"
  shows "wallCollision (advance b) = b\<lparr> b_x := b_x b + b_vx b, b_y := b_y b + b_vy b \<rparr>"
  using assms by (simp add: wallCollision_def advance_def)

lemma free_flight:
  assumes Some: "flyingBubble s = Some f" and fG: "f \<notin> set (gridBubbles s)"
    and np: "noPop s" "\<not> b_isPopping b"
    and rad: "b_radius b = BUBBLE_RADIUS" "\<forall>g \<in> set (gridBubbles s). b_radius (heap s g) = BUBBLE_RADIUS"
    and clear: "\<forall>j. 1 \<le> j \<and> j \<le> n \<longrightarrow>
        BUBBLE_RADIUS \<le> b_x b + real j * b_vx b
        \<and> b_x b + real j * b_vx b \<le> CANVAS_WIDTH - BUBBLE_RADIUS
        \<and> BUBBLE_RADIUS \<le> b_y b + real j * b_vy b
        \<and> (\<forall>g \<in> set (gridBubbles s).
              1444 \<le> (b_x (heap s g) - (b_x b + real j * b_vx b))\<^sup>2
                     + (b_y (heap s g) - (b_y b + real j * b_vy b))\<^sup>2)"
  shows "frames n (flightState s f b h)
         = flightState s f (b\<lparr> b_x := b_x b + real n * b_vx b, b_y := b_y b + real n * b_vy b \<rparr>) (h + n)"
  using clear
proof (induction n)
  case 0
  show ?case by simp
next
  case (Suc n)
  let ?bn = "b\<lparr> b_x := b_x b + real n * b_vx b, b_y := b_y b + real n * b_vy b \<rparr>"
  let ?b' = "b\<lparr> b_x := b_x b + real (Suc n) * b_vx b, b_y := b_y b + real (Suc n) * b_vy b \<rparr>"
  from Suc.prems have "\<forall>j. 1 \<le> j \<and> j \<le> n \<longrightarrow>
        BUBBLE_RADIUS \<le> b_x b + real j * b_vx b
        \<and> b_x b + real j * b_vx b \<le> CANVAS_WIDTH - BUBBLE_RADIUS
        \<and> BUBBLE_RADIUS \<le> b_y b + real j * b_vy b
        \<and> (\<forall>g \<in> set (gridBubbles s).
              1444 \<le> (b_x (heap s g) - (b_x b + real j * b_vx b))\<^sup>2
                     + (b_y (heap s g) - (b_y b + real j * b_vy b))\<^sup>2)"
  proof (intro allI impI)
    fix j assume "1 \<le> j \<and> j \<le> n"
    then have "1 \<le> j \<and> j \<le> Suc n" by simp
    from Suc.prems [rule_format, OF this]
    show "BUBBLE_RADIUS \<le> b_x b + real j * b_vx b
        \<and> b_x b + real j * b_vx b \<le> CANVAS_WIDTH - BUBBLE_RADIUS
        \<and> BUBBLE_RADIUS \<le> b_y b + real j * b_vy b
        \<and> (\<forall>g \<in> set (gridBubbles s).
              1444 \<le> (b_x (heap s g) - (b_x b + real j * b_vx b))\<^sup>2
                     + (b_y (heap s g) - (b_y b + real j * b_vy b))\<^sup>2)" .
  qed
  from Suc.IH [OF this] have ih: "frames n (flightState s f b h) = flightState s f ?bn (h + n)" .
  have "1 \<le> Suc n \<and> Suc n \<le> Suc n" by simp
  from Suc.prems [rule_format, OF this] have here: "BUBBLE_RADIUS \<le> b_x b + real (Suc n) * b_vx b"
    "b_x b + real (Suc n) * b_vx b \<le> CANVAS_WIDTH - BUBBLE_RADIUS"
    "BUBBLE_RADIUS \<le> b_y b + real (Suc n) * b_vy b"
    and far: "\<forall>g \<in> set (gridBubbles s).
              1444 \<le> (b_x (heap s g) - (b_x b + real (Suc n) * b_vx b))\<^sup>2
                     + (b_y (heap s g) - (b_y b + real (Suc n) * b_vy b))\<^sup>2"
    by simp_all
  have mv: "wallCollision (advance ?bn) = ?b'"
    using here rad(1) by (subst move_free) (simp_all add: algebra_simps)
  have r': "b_radius ?b' = BUBBLE_RADIUS" using rad(1) by simp
  have nc: "\<not> isCollidingWith ?b' (heap s g)" if "g \<in> set (gridBubbles s)" for g
  proof -
    from rad(2) that have "b_radius (heap s g) = BUBBLE_RADIUS" by simp
    from far that have "\<not> (b_x (heap s g) - b_x ?b')\<^sup>2 + (b_y (heap s g) - b_y ?b')\<^sup>2 < 1444"
      by (simp add: not_less)
    then show ?thesis unfolding isCollidingWith_radius [OF r' \<open>b_radius (heap s g) = BUBBLE_RADIUS\<close>] .
  qed
  have miss: "\<not> (b_y (wallCollision (advance ?bn)) - b_radius (wallCollision (advance ?bn)) < 0
              \<or> (\<exists>g \<in> set (gridBubbles s). isCollidingWith (wallCollision (advance ?bn)) (heap s g)))"
    unfolding mv using nc here(3) rad(1) by auto
  have "\<not> b_isPopping ?bn" using np(2) by simp
  from tick_free [OF Some fG np(1) this miss, of "h + n"]
  show ?case by (simp add: ih flightState_fields mv)
qed

lemma settledState_fields:
  assumes inv: "gameInv s" and Some: "flyingBubble s = Some f"
  shows "gridBubbles (settledState s f h)
           = filter (\<lambda>k. b_y (heap (landed f s) k) \<le> BUBBLE_RADIUS * 2) (gridBubbles s @ [f])"
    and "k \<in> set (gridBubbles s @ [f]) \<Longrightarrow>
           heap (settledState s f h) k =
             (if b_y (heap (landed f s) k) \<le> BUBBLE_RADIUS * 2 then heap (landed f s) k
              else (heap (landed f s) k)\<lparr> b_isGrid := False, b_vy := 5 \<rparr>)"
    and "flyingBubble (settledState s f h) = None"
    and "frameRequests (settledState s f h) = [h]"
    and "nextHandle (settledState s f h) = Suc h"
    and "animationFrameId (settledState s f h) = h"
    and "nextRef (settledState s f h) = nextRef s"
    and "score (settledState s f h)
           = score s + 5 * int (length (filter (\<lambda>k. \<not> b_y (heap (landed f s) k) \<le> BUBBLE_RADIUS * 2)
                                          (gridBubbles s @ [f])))"
proof -
  define s5 where "s5 = (landed f s)\<lparr> flyingBubble := None \<rparr>"
  have f5: "gridBubbles s5 = gridBubbles s @ [f]" "heap s5 = heap (landed f s)"
    "nextRef s5 = nextRef s" "score s5 = score s"
    by (simp_all add: s5_def landed_def Let_def)
  have g5: "gridBubbles s5 = gridBubbles (landed f s)" by (simp add: s5_def)
  have "\<forall>a \<in> set (gridBubbles s5). getNeighbors s5 a = []"
    using landed_lonely(3) [OF inv Some] by (simp add: g5 getNeighbors_cong [OF f5(2) g5])
  then have a: "anchored s5 = ceilingSeeds s5" by (rule lonely_anchored)
  have t: "settledState s f h
           = (checkFloatingBubbles s5)\<lparr> frameRequests := [h], nextHandle := Suc h, animationFrameId := h \<rparr>"
    by (simp add: settledState_def s5_def)
  have c: "k \<in> ceilingSeeds s5 \<longleftrightarrow> k \<in> set (gridBubbles s @ [f]) \<and> b_y (heap (landed f s) k) \<le> BUBBLE_RADIUS * 2"
    for k by (simp add: ceilingSeeds_def f5)
  have keep: "filter (\<lambda>b. b \<in> ceilingSeeds s5) (gridBubbles s @ [f])
        = filter (\<lambda>k. b_y (heap (landed f s) k) \<le> BUBBLE_RADIUS * 2) (gridBubbles s @ [f])"
    by (rule filter_cong) (simp_all add: c)
  show "gridBubbles (settledState s f h)
           = filter (\<lambda>k. b_y (heap (landed f s) k) \<le> BUBBLE_RADIUS * 2) (gridBubbles s @ [f])"
    unfolding t checkFloatingBubbles_eq a keep [symmetric]
    by (simp add: dropped_def f5 del: filter_append)
  show "heap (settledState s f h) k =
             (if b_y (heap (landed f s) k) \<le> BUBBLE_RADIUS * 2 then heap (landed f s) k
              else (heap (landed f s) k)\<lparr> b_isGrid := False, b_vy := 5 \<rparr>)"
    if "k \<in> set (gridBubbles s @ [f])"
    using that unfolding t checkFloatingBubbles_eq a
    by (auto simp: dropped_def floating_def f5 c simp del: filter_append)
  show "flyingBubble (settledState s f h) = None"
    unfolding t checkFloatingBubbles_eq by (simp add: dropped_def s5_def)
  show "frameRequests (settledState s f h) = [h]" "nextHandle (settledState s f h) = Suc h"
    "animationFrameId (settledState s f h) = h"
    by (simp_all add: settledState_def)
  show "nextRef (settledState s f h) = nextRef s"
    unfolding t checkFloatingBubbles_eq by (simp add: dropped_def f5)
  have "filter (\<lambda>b. b \<notin> ceilingSeeds s5) (gridBubbles s @ [f])
        = filter (\<lambda>k. \<not> b_y (heap (landed f s) k) \<le> BUBBLE_RADIUS * 2) (gridBubbles s @ [f])"
    by (rule filter_cong) (simp_all add: c)
  then show "score (settledState s f h)
           = score s + 5 * int (length (filter (\<lambda>k. \<not> b_y (heap (landed f s) k) \<le> BUBBLE_RADIUS * 2)
                                          (gridBubbles s @ [f])))"
    unfolding t checkFloatingBubbles_eq a
    by (simp add: dropped_def floating_def f5 del: filter_append)
qed

subsection \<open>A shot straight up\<close>

lemma sqrt3_bounds: "173 / 100 \<le> sqrt 3" "sqrt 3 \<le> 7 / 4"
proof -
  show "173 / 100 \<le> sqrt 3" by (rule real_le_rsqrt) (simp add: power2_eq_square)
  show "sqrt 3 \<le> 7 / 4" by (rule real_le_lsqrt) (simp_all add: power2_eq_square)
qed

lemma demoDraws_range: "\<forall>k. 0 \<le> demoDraws k \<and> demoDraws k < 1"
  by (simp add: demoDraws_def)

lemma square_ge:
  fixes a d :: real
  assumes "0 \<le> d" "d \<le> \<bar>a\<bar>"
  shows "d\<^sup>2 \<le> a\<^sup>2"
proof -
  from assms have "\<bar>d\<bar> \<le> \<bar>a\<bar>" by simp
  then show ?thesis by (simp only: abs_le_square_iff)
qed

lemma square_le:
  fixes a d :: real
  assumes "\<bar>a\<bar> \<le> d"
  shows "a\<^sup>2 \<le> d\<^sup>2"
proof -
  from assms have "\<bar>a\<bar> \<le> \<bar>d\<bar>" by simp
  then show ?thesis by (simp only: abs_le_square_iff)
qed

lemma demo_gridInv: "gridInv (initGame demoDraws) ''blue'' 0"
proof -
  have e: "gridBubbles loadedGame = []" by (simp add: loadedGame_def)
  have "\<lfloor>5 / 2 :: real\<rfloor> = 2" by linarith
  then have c: "BUBBLE_COLORS ! nat \<lfloor>demoDraws 0 * 5\<rfloor> = ''blue''"
    by (simp add: demoDraws_def BUBBLE_COLORS_def)
  from generateInitialGrid_gridInv [OF demoDraws_range e]
  have "gridInv (generateInitialGrid demoDraws loadedGame) ''blue'' 0"
    unfolding c by (simp add: loadedGame_def)
  then show ?thesis by (simp add: gridInv_def initGame_fields)
qed

lemma demo_grid_low:
  assumes "g \<in> set (gridBubbles (initGame demoDraws))"
  shows "b_y (heap (initGame demoDraws) g) \<le> 160" and "g < shotRef"
    and "b_color (heap (initGame demoDraws) g) = ''blue''"
proof -
  from initGame_cells [OF assms] obtain r c :: nat where rc: "r < 5" "c < 9"
    "b_y (heap (initGame demoDraws) g) = centreY (int r)" and lt: "g < nextRef (initGame demoDraws)"
    by blast
  from rc(1) have "real r \<le> 4" by simp
  then have "real r * (20 * sqrt 3) \<le> 4 * (20 * (7 / 4))"
    using sqrt3_bounds(2) by (intro mult_mono) simp_all
  then show "b_y (heap (initGame demoDraws) g) \<le> 160"
    by (simp add: rc(3) centreY_def BUBBLE_RADIUS_def BUBBLE_DIAMETER_def)
  from lt show "g < shotRef" by (simp add: shotRef_def)
  from demo_gridInv assms show "b_color (heap (initGame demoDraws) g) = ''blue''"
    by (simp add: gridInv_def)
qed

lemma shotOne_reachable: "reachable shotOne"
  unfolding shotOne_def
  by (intro reachable.shoot reachable.aim reachable.start demoDraws_range) simp_all

lemma shotOne_fields:
  "flyingBubble shotOne = Some shotRef"
  "gridBubbles shotOne = gridBubbles (initGame demoDraws)"
  "heap shotOne shotRef = (newBubble 200 560 ''blue'' False)\<lparr> b_vx := 0, b_vy := - 10 \<rparr>"
  "g \<noteq> shotRef \<Longrightarrow> heap shotOne g = heap (initGame demoDraws) g"
  "frameRequests shotOne = [1]"
  "nextHandle shotOne = 2"
  "animationFrameId shotOne = 1"
  "nextRef shotOne = Suc shotRef"
  "score shotOne = score (initGame demoDraws)"
proof -
  let ?i = "initGame demoDraws"
  have f0: "flyingBubble ?i = None" using initGame_frame [of demoDraws] by simp
  have a: "handleAim (200, 480) ?i = ?i\<lparr> cannonAngle := - (pi / 2) \<rparr>"
    using f0 by (simp add: handleAim_def atan2_def cannonCenter_def CANVAS_WIDTH_def
        CANVAS_HEIGHT_def CANNON_HEIGHT_def)
  have "gridInv (?i\<lparr> cannonAngle := - (pi / 2) \<rparr>) ''blue'' 0"
    using demo_gridInv by (simp add: gridInv_def)
  from gridInv_color [OF this, of "1 / 2"]
  have c: "getRandomBubbleColor (?i\<lparr> cannonAngle := - (pi / 2) \<rparr>) (1 / 2) = ''blue''" by simp
  have s: "shotOne = ?i\<lparr> cannonAngle := - (pi / 2),
             heap := (heap ?i)(shotRef := (newBubble 200 560 ''blue'' False)\<lparr> b_vx := 0, b_vy := - 10 \<rparr>),
             nextRef := shotRef + 1, flyingBubble := Some shotRef, bubbles := bubbles ?i @ [shotRef] \<rparr>"
    unfolding shotOne_def a
    using f0 by (simp add: handleShoot_def Let_def c shotRef_def cannonCenter_def CANVAS_WIDTH_def
        CANVAS_HEIGHT_def CANNON_HEIGHT_def SHOOT_SPEED_def)
  show "flyingBubble shotOne = Some shotRef" "gridBubbles shotOne = gridBubbles ?i"
    "heap shotOne shotRef = (newBubble 200 560 ''blue'' False)\<lparr> b_vx := 0, b_vy := - 10 \<rparr>"
    "frameRequests shotOne = [1]" "nextHandle shotOne = 2" "animationFrameId shotOne = 1"
    "nextRef shotOne = Suc shotRef" "score shotOne = score ?i"
    by (simp_all add: s initGame_fields)
  show "heap shotOne g = heap ?i g" if "g \<noteq> shotRef" using that by (simp add: s)
qed

lemma shotOne_grid:
  assumes "g \<in> set (gridBubbles shotOne)"
  shows "g \<noteq> shotRef" "heap shotOne g = heap (initGame demoDraws) g"
    "b_radius (heap shotOne g) = BUBBLE_RADIUS"
proof -
  from assms have g: "g \<in> set (gridBubbles (initGame demoDraws))" by (simp add: shotOne_fields)
  from demo_grid_low(2) [OF g] show ne: "g \<noteq> shotRef" by simp
  then show "heap shotOne g = heap (initGame demoDraws) g" by (rule shotOne_fields)
  from reachable_gameInv [OF shotOne_reachable] assms
  show "b_radius (heap shotOne g) = BUBBLE_RADIUS" by (simp add: gameInv_def gridBound_def)
qed

lemma flight_one:
  "frames 36 shotOne
   = flightState shotOne shotRef ((newBubble 200 200 ''blue'' False)\<lparr> b_vx := 0, b_vy := - 10 \<rparr>) 37"
proof -
  let ?b = "(newBubble 200 560 ''blue'' False)\<lparr> b_vx := 0, b_vy := - 10 \<rparr>"
  have same: "flightState shotOne shotRef ?b 1 = shotOne"
    by (rule flightState_same) (simp_all add: shotOne_fields)
  have fG: "shotRef \<notin> set (gridBubbles shotOne)" using shotOne_grid(1) by blast
  have np: "noPop shotOne" using reachable_never_over [OF shotOne_reachable] by simp
  have rad: "\<forall>g \<in> set (gridBubbles shotOne). b_radius (heap shotOne g) = BUBBLE_RADIUS"
    using shotOne_grid(3) by blast
  have bf: "b_x ?b = 200" "b_y ?b = 560" "b_vx ?b = 0" "b_vy ?b = - 10" "b_radius ?b = BUBBLE_RADIUS"
    "\<not> b_isPopping ?b" by (simp_all add: newBubble_def)
  have clear: "\<forall>j. 1 \<le> j \<and> j \<le> 36 \<longrightarrow>
        BUBBLE_RADIUS \<le> b_x ?b + real j * b_vx ?b
        \<and> b_x ?b + real j * b_vx ?b \<le> CANVAS_WIDTH - BUBBLE_RADIUS
        \<and> BUBBLE_RADIUS \<le> b_y ?b + real j * b_vy ?b
        \<and> (\<forall>g \<in> set (gridBubbles shotOne).
              1444 \<le> (b_x (heap shotOne g) - (b_x ?b + real j * b_vx ?b))\<^sup>2
                     + (b_y (heap shotOne g) - (b_y ?b + real j * b_vy ?b))\<^sup>2)"
    unfolding bf
  proof (intro allI impI conjI ballI)
    fix j :: nat assume j: "1 \<le> j \<and> j \<le> 36"
    then have rj: "real j \<le> 36" by simp
    show "BUBBLE_RADIUS \<le> 200 + real j * 0" "200 + real j * 0 \<le> CANVAS_WIDTH - BUBBLE_RADIUS"
      by (simp_all add: BUBBLE_RADIUS_def CANVAS_WIDTH_def)
    show "BUBBLE_RADIUS \<le> 560 + real j * - 10" using rj by (simp add: BUBBLE_RADIUS_def)
    fix g assume g: "g \<in> set (gridBubbles shotOne)"
    then have "g \<in> set (gridBubbles (initGame demoDraws))" by (simp add: shotOne_fields)
    from demo_grid_low(1) [OF this] have "b_y (heap shotOne g) \<le> 160"
      by (simp add: shotOne_grid(2) [OF g])
    with rj have "40 \<le> \<bar>b_y (heap shotOne g) - (560 + real j * - 10)\<bar>" by linarith
    then have "(40::real)\<^sup>2 \<le> (b_y (heap shotOne g) - (560 + real j * - 10))\<^sup>2"
      by (intro square_ge) simp_all
    then have "1600 \<le> (b_y (heap shotOne g) - (560 + real j * - 10))\<^sup>2" by simp
    moreover have "0 \<le> (b_x (heap shotOne g) - (200 + real j * 0))\<^sup>2" by (rule zero_le_power2)
    ultimately show "1444 \<le> (b_x (heap shotOne g) - (200 + real j * 0))\<^sup>2
                     + (b_y (heap shotOne g) - (560 + real j * - 10))\<^sup>2" by linarith
  qed
  from free_flight [OF shotOne_fields(1) fG np bf(6) bf(5) rad clear, of 1]
  show ?thesis unfolding same by (simp add: newBubble_def)
qed

lemma snap_200_190:
  "getGridPosition 200 190 = \<lparr> s_x = 200, s_y = 20 + 100 * sqrt 3, s_row = 5, s_col = 4 \<rparr>"
proof -
  have pos: "0 < 20 * sqrt 3" by simp
  have lo: "9 / 2 \<le> 170 / (20 * sqrt 3)"
    unfolding pos_le_divide_eq [OF pos] using sqrt3_bounds(2) by simp
  have hi: "170 / (20 * sqrt 3) < 11 / 2"
    unfolding pos_divide_less_eq [OF pos] using sqrt3_bounds(1) by simp
  have "round (170 / (20 * sqrt 3)) = 5"
    by (rule round_unique) (use lo hi in simp_all)
  then have row: "round ((190 - BUBBLE_RADIUS) / (BUBBLE_DIAMETER * sqrt 3 / 2)) = 5"
    by (simp add: BUBBLE_RADIUS_def BUBBLE_DIAMETER_def)
  have j: "js_rem 5 2 = 1" by (simp add: js_rem_def)
  have "round (4 :: real) = 4" by (rule round_unique) simp_all
  then have col: "round ((200 - BUBBLE_RADIUS - real_of_int (js_rem 5 2) * BUBBLE_RADIUS) / BUBBLE_DIAMETER) = 4"
    by (simp add: j BUBBLE_RADIUS_def BUBBLE_DIAMETER_def)
  show ?thesis
    unfolding getGridPosition_def Let_def row col j
    by (simp add: BUBBLE_RADIUS_def BUBBLE_DIAMETER_def)
qed

lemma before_fields:
  "reachable (frames 36 shotOne)"
  "flyingBubble (frames 36 shotOne) = Some shotRef"
  "gridBubbles (frames 36 shotOne) = gridBubbles (initGame demoDraws)"
  "heap (frames 36 shotOne) shotRef = (newBubble 200 200 ''blue'' False)\<lparr> b_vx := 0, b_vy := - 10 \<rparr>"
  "g \<noteq> shotRef \<Longrightarrow> heap (frames 36 shotOne) g = heap (initGame demoDraws) g"
  "frameRequests (frames 36 shotOne) = [37]"
  "nextHandle (frames 36 shotOne) = 38"
  "animationFrameId (frames 36 shotOne) = 37"
  "nextRef (frames 36 shotOne) = Suc shotRef"
proof -
  show "reachable (frames 36 shotOne)" by (rule reachable_frames [OF shotOne_reachable])
  show "flyingBubble (frames 36 shotOne) = Some shotRef"
    "gridBubbles (frames 36 shotOne) = gridBubbles (initGame demoDraws)"
    "heap (frames 36 shotOne) shotRef = (newBubble 200 200 ''blue'' False)\<lparr> b_vx := 0, b_vy := - 10 \<rparr>"
    "frameRequests (frames 36 shotOne) = [37]" "nextHandle (frames 36 shotOne) = 38"
    "animationFrameId (frames 36 shotOne) = 37" "nextRef (frames 36 shotOne) = Suc shotRef"
    unfolding flight_one by (simp_all add: flightState_fields shotOne_fields)
  show "heap (frames 36 shotOne) g = heap (initGame demoDraws) g" if "g \<noteq> shotRef"
    unfolding flight_one using that by (simp add: flightState_fields shotOne_fields)
qed

lemma before_move:
  "wallCollision (advance (heap (frames 36 shotOne) shotRef))
   = (newBubble 200 190 ''blue'' False)\<lparr> b_vx := 0, b_vy := - 10 \<rparr>"
  unfolding before_fields
  by (simp add: wallCollision_def advance_def newBubble_def BUBBLE_RADIUS_def CANVAS_WIDTH_def)

lemma row4_bubbles:
  assumes "c < 9"
  shows "\<exists>g \<in> set (gridBubbles (initGame demoDraws)). g \<noteq> shotRef
           \<and> b_x (heap (initGame demoDraws) g) = 20 + 40 * real c
           \<and> b_y (heap (initGame demoDraws) g) = 20 + 80 * sqrt 3
           \<and> b_color (heap (initGame demoDraws) g) = ''blue''
           \<and> b_radius (heap (initGame demoDraws) g) = 20"
proof -
  have j: "js_rem 4 2 = 0" by (simp add: js_rem_def)
  from initGame_gridAt [of 4 c demoDraws] assms
  obtain g where g: "g \<in> set (gridBubbles (initGame demoDraws))"
    "b_x (heap (initGame demoDraws) g) = centreX 4 (int c)"
    "b_y (heap (initGame demoDraws) g) = centreY 4"
    by (auto simp: gridAt_def)
  from g(1) have gs: "g \<in> set (gridBubbles shotOne)" by (simp add: shotOne_fields)
  from shotOne_grid(3) [OF gs] shotOne_grid(2) [OF gs]
  have r: "b_radius (heap (initGame demoDraws) g) = 20" by (simp add: BUBBLE_RADIUS_def)
  from demo_grid_low(2,3) [OF g(1)] g r show ?thesis
    by (intro bexI [of _ g])
       (simp_all add: centreX_def centreY_def j BUBBLE_RADIUS_def BUBBLE_DIAMETER_def)
qed

lemma before_hit:
  "\<exists>g \<in> set (gridBubbles (frames 36 shotOne)).
     isCollidingWith (wallCollision (advance (heap (frames 36 shotOne) shotRef))) (heap (frames 36 shotOne) g)"
proof -
  from row4_bubbles [of 4] obtain g where g: "g \<in> set (gridBubbles (initGame demoDraws))" "g \<noteq> shotRef"
    "b_x (heap (initGame demoDraws) g) = 180" "b_y (heap (initGame demoDraws) g) = 20 + 80 * sqrt 3"
    "b_radius (heap (initGame demoDraws) g) = 20" by auto
  let ?b1 = "(newBubble 200 190 ''blue'' False)\<lparr> b_vx := 0, b_vy := - 10 \<rparr>"
  have r1: "b_radius ?b1 = BUBBLE_RADIUS" by (simp add: newBubble_def)
  have rg: "b_radius (heap (initGame demoDraws) g) = BUBBLE_RADIUS" using g(5) by (simp add: BUBBLE_RADIUS_def)
  have "\<bar>80 * sqrt 3 - 170\<bar> \<le> 158 / 5" using sqrt3_bounds by (simp add: abs_le_iff)
  then have "(80 * sqrt 3 - 170)\<^sup>2 \<le> (158 / 5)\<^sup>2" by (rule square_le)
  then have "(80 * sqrt 3 - 170)\<^sup>2 \<le> 1000" by (simp add: power2_eq_square)
  moreover have "(20 + 80 * sqrt 3 - 190) = 80 * sqrt 3 - 170" by simp
  ultimately have "(180 - 200 :: real)\<^sup>2 + (20 + 80 * sqrt 3 - 190)\<^sup>2 < 1444" by simp
  then have "isCollidingWith ?b1 (heap (initGame demoDraws) g)"
    unfolding isCollidingWith_radius [OF r1 rg] by (simp add: g newBubble_def)
  with g(1,2) show ?thesis
    unfolding before_move by (intro bexI [of _ g]) (simp_all add: before_fields)
qed

lemma settle_one: "frames 37 shotOne = settledState (frames 36 shotOne) shotRef 38"
proof -
  have "frames 37 shotOne = frames (Suc 36) shotOne" by simp
  also have "\<dots> = animationFrame (animationFrameId (frames 36 shotOne)) (frames 36 shotOne)"
    by (rule frames.simps)
  also have "\<dots> = animationFrame 37 (frames 36 shotOne)" by (simp only: before_fields(8))
  also have "\<dots> = settledState (frames 36 shotOne) shotRef (Suc 37)"
    by (rule tick_settle [OF reachable_gameInv reachable_playInv before_fields(2)])
       (simp_all add: before_fields(1,6,7) before_hit)
  finally show ?thesis by simp
qed

lemma landed_one:
  "heap (landed shotRef (frames 36 shotOne)) shotRef
     = (newBubble 200 (20 + 100 * sqrt 3) ''blue'' True)\<lparr> b_vx := 0, b_vy := - 10 \<rparr>"
  "g \<noteq> shotRef \<Longrightarrow> heap (landed shotRef (frames 36 shotOne)) g = heap (initGame demoDraws) g"
  "gridBubbles (landed shotRef (frames 36 shotOne)) = gridBubbles (initGame demoDraws) @ [shotRef]"
proof -
  show "heap (landed shotRef (frames 36 shotOne)) shotRef
     = (newBubble 200 (20 + 100 * sqrt 3) ''blue'' True)\<lparr> b_vx := 0, b_vy := - 10 \<rparr>"
    unfolding landed_def Let_def before_move
    by (simp add: newBubble_def snap_200_190)
  show "heap (landed shotRef (frames 36 shotOne)) g = heap (initGame demoDraws) g" if "g \<noteq> shotRef"
    using that by (simp add: landed_def Let_def before_fields)
  show "gridBubbles (landed shotRef (frames 36 shotOne)) = gridBubbles (initGame demoDraws) @ [shotRef]"
    by (simp add: landed_def Let_def before_fields)
qed



subsection \<open>A shot into the corner\<close>

lemma after_fields:
  "reachable (frames 37 shotOne)"
  "flyingBubble (frames 37 shotOne) = None"
  "frameRequests (frames 37 shotOne) = [38]"
  "nextHandle (frames 37 shotOne) = 39"
  "animationFrameId (frames 37 shotOne) = 38"
  "nextRef (frames 37 shotOne) = Suc shotRef"
proof -
  have inv: "gameInv (frames 36 shotOne)" by (rule reachable_gameInv [OF before_fields(1)])
  show "reachable (frames 37 shotOne)" by (rule reachable_frames [OF shotOne_reachable])
  show "flyingBubble (frames 37 shotOne) = None" "frameRequests (frames 37 shotOne) = [38]"
    "nextHandle (frames 37 shotOne) = 39" "animationFrameId (frames 37 shotOne) = 38"
    "nextRef (frames 37 shotOne) = Suc shotRef"
    unfolding settle_one
    by (simp_all add: settledState_fields [OF inv before_fields(2)] before_fields)
qed

lemma after_grid:
  assumes "g \<in> set (gridBubbles (frames 37 shotOne))"
  shows "b_y (heap (frames 37 shotOne) g) = 20" "b_x (heap (frames 37 shotOne) g) \<le> 340"
    "b_radius (heap (frames 37 shotOne) g) = BUBBLE_RADIUS" "g \<noteq> Suc shotRef"
proof -
  let ?p = "frames 36 shotOne"
  let ?t = "frames 37 shotOne"
  have inv: "gameInv ?p" by (rule reachable_gameInv [OF before_fields(1)])
  from assms have in0: "g \<in> set (gridBubbles ?p @ [shotRef])"
    and low: "b_y (heap (landed shotRef ?p) g) \<le> BUBBLE_RADIUS * 2"
    unfolding settle_one settledState_fields(1) [OF inv before_fields(2)]
    by (simp_all del: filter_append)
  from settledState_fields(2) [OF inv before_fields(2) in0, of 38] low
  have h: "heap ?t g = heap (landed shotRef ?p) g" unfolding settle_one by simp
  have "g \<noteq> shotRef"
  proof
    assume "g = shotRef"
    with low sqrt3_bounds(1) show False
      by (simp add: landed_one newBubble_def BUBBLE_RADIUS_def)
  qed
  with in0 have g: "g \<in> set (gridBubbles (initGame demoDraws))"
    and hg: "heap ?t g = heap (initGame demoDraws) g"
    by (simp_all add: before_fields h landed_one)
  from initGame_cells [OF g] obtain r c :: nat where rc: "r < 5" "c < 9"
    "b_x (heap (initGame demoDraws) g) = centreX (int r) (int c)"
    "b_y (heap (initGame demoDraws) g) = centreY (int r)" by blast
  have r0: "r = 0"
  proof (rule ccontr)
    assume "r \<noteq> 0"
    then have "1 \<le> real r" by simp
    then have "1 * (20 * (173 / 100)) \<le> real r * (20 * sqrt 3)"
      using sqrt3_bounds(1) by (intro mult_mono) simp_all
    with low show False
      by (simp add: landed_one \<open>g \<noteq> shotRef\<close> rc(4) centreY_def BUBBLE_RADIUS_def BUBBLE_DIAMETER_def)
  qed
  from rc(2) have "real c \<le> 8" by simp
  then show "b_x (heap ?t g) \<le> 340"
    by (simp add: hg rc(3) r0 centreX_def js_rem_def BUBBLE_RADIUS_def BUBBLE_DIAMETER_def)
  show "b_y (heap ?t g) = 20"
    by (simp add: hg rc(4) r0 centreY_def BUBBLE_RADIUS_def)
  from reachable_gameInv [OF after_fields(1)] assms
  show "b_radius (heap ?t g) = BUBBLE_RADIUS" "g \<noteq> Suc shotRef"
    by (auto simp: gameInv_def gridBound_def after_fields)
qed

lemma after_corner:
  "\<exists>g \<in> set (gridBubbles (frames 37 shotOne)).
     b_x (heap (frames 37 shotOne) g) = 340 \<and> b_y (heap (frames 37 shotOne) g) = 20"
proof -
  let ?p = "frames 36 shotOne"
  let ?t = "frames 37 shotOne"
  have inv: "gameInv ?p" by (rule reachable_gameInv [OF before_fields(1)])
  from initGame_gridAt [of 0 8 demoDraws]
  obtain g where g: "g \<in> set (gridBubbles (initGame demoDraws))"
    "b_x (heap (initGame demoDraws) g) = centreX 0 8" "b_y (heap (initGame demoDraws) g) = centreY 0"
    by (auto simp: gridAt_def)
  from demo_grid_low(2) [OF g(1)] have ne: "g \<noteq> shotRef" by simp
  have pos: "b_x (heap (initGame demoDraws) g) = 340" "b_y (heap (initGame demoDraws) g) = 20"
    by (simp_all add: g centreX_def centreY_def js_rem_def BUBBLE_RADIUS_def BUBBLE_DIAMETER_def)
  have in0: "g \<in> set (gridBubbles ?p @ [shotRef])" using g(1) by (simp add: before_fields)
  have low: "b_y (heap (landed shotRef ?p) g) \<le> BUBBLE_RADIUS * 2"
    using ne by (simp add: landed_one pos BUBBLE_RADIUS_def)
  from settledState_fields(2) [OF inv before_fields(2) in0, of 38] low ne
  have h: "heap ?t g = heap (initGame demoDraws) g" unfolding settle_one by (simp add: landed_one)
  have "g \<in> set (gridBubbles ?t)"
    unfolding settle_one settledState_fields(1) [OF inv before_fields(2)] using in0 low
    by (simp del: filter_append)
  then show ?thesis by (rule bexI [rotated]) (simp add: h pos)
qed

lemma aim_two: "sqrt (1 + (- (35 / 12))\<^sup>2) = 37 / (12 :: real)"
proof -
  have "1 + (- (35 / 12))\<^sup>2 = (37 / 12 :: real)\<^sup>2" by (simp add: power2_eq_square)
  then show ?thesis by (simp only: real_sqrt_abs)
qed

lemma shotTwo_reachable: "reachable shotTwo"
  unfolding shotTwo_def
  by (intro reachable.shoot reachable.aim after_fields(1)) simp_all

lemma shotTwo_fields:
  "flyingBubble shotTwo = Some (Suc shotRef)"
  "gridBubbles shotTwo = gridBubbles (frames 37 shotOne)"
  "b_x (heap shotTwo (Suc shotRef)) = 7640 / 37"
  "b_y (heap shotTwo (Suc shotRef)) = 20760 / 37"
  "b_vx (heap shotTwo (Suc shotRef)) = 120 / 37"
  "b_vy (heap shotTwo (Suc shotRef)) = - 350 / 37"
  "b_radius (heap shotTwo (Suc shotRef)) = BUBBLE_RADIUS"
  "g \<noteq> Suc shotRef \<Longrightarrow> heap shotTwo g = heap (frames 37 shotOne) g"
  "frameRequests shotTwo = [38]"
  "nextHandle shotTwo = 39"
  "animationFrameId shotTwo = 38"
proof -
  let ?t = "frames 37 shotOne"
  let ?a = "arctan (- (35 / 12))"
  have a: "handleAim (212, 545) ?t = ?t\<lparr> cannonAngle := ?a \<rparr>"
    using after_fields(2) by (simp add: handleAim_def atan2_def cannonCenter_def CANVAS_WIDTH_def
        CANVAS_HEIGHT_def CANNON_HEIGHT_def)
  have co: "cos ?a = 12 / 37" unfolding cos_arctan aim_two by simp
  have si: "sin ?a = - (35 / 37)" unfolding sin_arctan aim_two by simp
  define col where "col = getRandomBubbleColor (?t\<lparr> cannonAngle := ?a \<rparr>) (1 / 2)"
  have s: "shotTwo = ?t\<lparr> cannonAngle := ?a,
             heap := (heap ?t)(Suc shotRef := (newBubble (7640 / 37) (20760 / 37) col False)
                                            \<lparr> b_vx := 120 / 37, b_vy := - 350 / 37 \<rparr>),
             nextRef := Suc shotRef + 1, flyingBubble := Some (Suc shotRef),
             bubbles := bubbles ?t @ [Suc shotRef] \<rparr>"
    unfolding shotTwo_def a
    using after_fields(2) by (simp add: handleShoot_def Let_def co si col_def after_fields
        cannonCenter_def CANVAS_WIDTH_def CANVAS_HEIGHT_def CANNON_HEIGHT_def SHOOT_SPEED_def)
  show "flyingBubble shotTwo = Some (Suc shotRef)" "gridBubbles shotTwo = gridBubbles ?t"
    "b_x (heap shotTwo (Suc shotRef)) = 7640 / 37" "b_y (heap shotTwo (Suc shotRef)) = 20760 / 37"
    "b_vx (heap shotTwo (Suc shotRef)) = 120 / 37" "b_vy (heap shotTwo (Suc shotRef)) = - 350 / 37"
    "b_radius (heap shotTwo (Suc shotRef)) = BUBBLE_RADIUS"
    "frameRequests shotTwo = [38]" "nextHandle shotTwo = 39" "animationFrameId shotTwo = 38"
    by (simp_all add: s after_fields newBubble_def)
  show "heap shotTwo g = heap ?t g" if "g \<noteq> Suc shotRef" using that by (simp add: s)
qed

lemma shotTwo_grid:
  assumes "g \<in> set (gridBubbles shotTwo)"
  shows "b_y (heap shotTwo g) = 20" "b_x (heap shotTwo g) \<le> 340"
    "b_radius (heap shotTwo g) = BUBBLE_RADIUS" "g \<noteq> Suc shotRef"
proof -
  from assms have g: "g \<in> set (gridBubbles (frames 37 shotOne))" by (simp add: shotTwo_fields)
  from after_grid(4) [OF g] show ne: "g \<noteq> Suc shotRef" .
  from after_grid(1-3) [OF g]
  show "b_y (heap shotTwo g) = 20" "b_x (heap shotTwo g) \<le> 340"
    "b_radius (heap shotTwo g) = BUBBLE_RADIUS"
    by (simp_all add: shotTwo_fields(8) [OF ne])
qed

lemma snap_corner:
  "getGridPosition (13820 / 37) (1160 / 37) = \<lparr> s_x = 380, s_y = 20, s_row = 0, s_col = 9 \<rparr>"
proof -
  have pos: "0 < 20 * sqrt 3" by simp
  have "420 / 37 / (20 * sqrt 3) < 1 / 2"
    unfolding pos_divide_less_eq [OF pos] using sqrt3_bounds(1) by simp
  moreover have "0 \<le> 420 / 37 / (20 * sqrt 3)" by simp
  ultimately have "round (420 / 37 / (20 * sqrt 3)) = 0"
    by (intro round_unique) simp_all
  then have row: "round ((1160 / 37 - BUBBLE_RADIUS) / (BUBBLE_DIAMETER * sqrt 3 / 2)) = 0"
    by (simp add: BUBBLE_RADIUS_def BUBBLE_DIAMETER_def)
  have j: "js_rem 0 2 = 0" by (simp add: js_rem_def)
  have col: "round (327 / 37 :: real) = 9" by (rule round_unique) simp_all
  show ?thesis
    unfolding getGridPosition_def Let_def row j
    by (simp add: BUBBLE_RADIUS_def BUBBLE_DIAMETER_def col)
qed

lemma cell_corner: "getGridPosition 380 20 = \<lparr> s_x = 380, s_y = 20, s_row = 0, s_col = 9 \<rparr>"
proof -
  have row: "round ((20 - BUBBLE_RADIUS) / (BUBBLE_DIAMETER * sqrt 3 / 2)) = 0"
    by (simp add: BUBBLE_RADIUS_def)
  have j: "js_rem 0 2 = 0" by (simp add: js_rem_def)
  have "round (9 :: real) = 9" by (rule round_unique) simp_all
  then have col: "round ((380 - BUBBLE_RADIUS - real_of_int (js_rem 0 2) * BUBBLE_RADIUS) / BUBBLE_DIAMETER) = 9"
    by (simp add: j BUBBLE_RADIUS_def BUBBLE_DIAMETER_def)
  show ?thesis
    unfolding getGridPosition_def Let_def row col j
    by (simp add: BUBBLE_RADIUS_def BUBBLE_DIAMETER_def)
qed

lemma shotTwo_static:
  "shotRef < Suc shotRef"
  "Suc shotRef \<notin> set (gridBubbles shotTwo)"
  "noPop shotTwo"
  "\<not> b_isPopping (heap shotTwo (Suc shotRef))"
  "\<forall>g \<in> set (gridBubbles shotTwo). b_radius (heap shotTwo g) = BUBBLE_RADIUS"
proof -
  show "shotRef < Suc shotRef" by simp
  show "Suc shotRef \<notin> set (gridBubbles shotTwo)" using shotTwo_grid(4) by blast
  from reachable_never_over [OF shotTwo_reachable] show np: "noPop shotTwo" by simp
  then show "\<not> b_isPopping (heap shotTwo (Suc shotRef))" by (simp add: noPop_def)
  show "\<forall>g \<in> set (gridBubbles shotTwo). b_radius (heap shotTwo g) = BUBBLE_RADIUS"
    using shotTwo_grid(3) by blast
qed

lemma flight_two:
  "frames 53 shotTwo
   = flightState shotTwo (Suc shotRef)
       ((heap shotTwo (Suc shotRef))\<lparr> b_x := 14000 / 37, b_y := 2210 / 37 \<rparr>) 91"
proof -
  let ?f = "Suc shotRef"
  let ?b = "heap shotTwo ?f"
  have same: "flightState shotTwo ?f ?b 38 = shotTwo"
    by (rule flightState_same) (simp_all add: shotTwo_fields)
  have clear: "\<forall>j. 1 \<le> j \<and> j \<le> 53 \<longrightarrow>
        BUBBLE_RADIUS \<le> b_x ?b + real j * b_vx ?b
        \<and> b_x ?b + real j * b_vx ?b \<le> CANVAS_WIDTH - BUBBLE_RADIUS
        \<and> BUBBLE_RADIUS \<le> b_y ?b + real j * b_vy ?b
        \<and> (\<forall>g \<in> set (gridBubbles shotTwo).
              1444 \<le> (b_x (heap shotTwo g) - (b_x ?b + real j * b_vx ?b))\<^sup>2
                     + (b_y (heap shotTwo g) - (b_y ?b + real j * b_vy ?b))\<^sup>2)"
    unfolding shotTwo_fields(3-6)
  proof (intro allI impI conjI ballI)
    fix j :: nat assume j: "1 \<le> j \<and> j \<le> 53"
    then have rj: "real j \<le> 53" "0 \<le> real j" by simp_all
    show "BUBBLE_RADIUS \<le> 7640 / 37 + real j * (120 / 37)"
      using rj by (simp add: BUBBLE_RADIUS_def)
    show "7640 / 37 + real j * (120 / 37) \<le> CANVAS_WIDTH - BUBBLE_RADIUS"
      using rj by (simp add: BUBBLE_RADIUS_def CANVAS_WIDTH_def)
    show "BUBBLE_RADIUS \<le> 20760 / 37 + real j * (- 350 / 37)"
      using rj by (simp add: BUBBLE_RADIUS_def)
    fix g assume g: "g \<in> set (gridBubbles shotTwo)"
    have y: "b_y (heap shotTwo g) = 20" by (rule shotTwo_grid(1) [OF g])
    from rj have "39 \<le> \<bar>20 - (20760 / 37 + real j * (- 350 / 37))\<bar>" by simp
    then have "(39::real)\<^sup>2 \<le> (20 - (20760 / 37 + real j * (- 350 / 37)))\<^sup>2"
      by (intro square_ge) simp_all
    then have "1521 \<le> (20 - (20760 / 37 + real j * (- 350 / 37)))\<^sup>2" by simp
    moreover have "0 \<le> (b_x (heap shotTwo g) - (7640 / 37 + real j * (120 / 37)))\<^sup>2"
      by (rule zero_le_power2)
    ultimately show "1444 \<le> (b_x (heap shotTwo g) - (7640 / 37 + real j * (120 / 37)))\<^sup>2
                     + (b_y (heap shotTwo g) - (20760 / 37 + real j * (- 350 / 37)))\<^sup>2"
      unfolding y by linarith
  qed
  from free_flight [OF shotTwo_fields(1) shotTwo_static(2,3,4) shotTwo_fields(7) shotTwo_static(5) clear, of 38]
  show ?thesis unfolding same by (simp add: shotTwo_fields)
qed

lemma flight_two_wall:
  "frames 54 shotTwo
   = flightState shotTwo (Suc shotRef)
       ((heap shotTwo (Suc shotRef))\<lparr> b_x := 380, b_y := 1860 / 37, b_vx := - (120 / 37) \<rparr>) 92"
proof -
  let ?f = "Suc shotRef"
  let ?b53 = "(heap shotTwo ?f)\<lparr> b_x := 14000 / 37, b_y := 2210 / 37 \<rparr>"
  let ?b54 = "(heap shotTwo ?f)\<lparr> b_x := 380, b_y := 1860 / 37, b_vx := - (120 / 37) \<rparr>"
  have mv: "wallCollision (advance ?b53) = ?b54"
    by (simp add: wallCollision_def advance_def Let_def shotTwo_fields BUBBLE_RADIUS_def CANVAS_WIDTH_def)
  have r: "b_radius ?b54 = BUBBLE_RADIUS" by (simp add: shotTwo_fields)
  have nc: "\<not> isCollidingWith ?b54 (heap shotTwo g)" if g: "g \<in> set (gridBubbles shotTwo)" for g
  proof -
    from shotTwo_grid(2) [OF g] have "40 \<le> \<bar>b_x (heap shotTwo g) - 380\<bar>" by simp
    then have "(40::real)\<^sup>2 \<le> (b_x (heap shotTwo g) - 380)\<^sup>2" by (intro square_ge) simp_all
    then have "1600 \<le> (b_x (heap shotTwo g) - 380)\<^sup>2" by simp
    moreover have "0 \<le> (b_y (heap shotTwo g) - 1860 / 37)\<^sup>2" by (rule zero_le_power2)
    ultimately have "\<not> (b_x (heap shotTwo g) - 380)\<^sup>2 + (b_y (heap shotTwo g) - 1860 / 37)\<^sup>2 < 1444"
      by linarith
    then show ?thesis unfolding isCollidingWith_radius [OF r shotTwo_grid(3) [OF g]] by simp
  qed
  have miss: "\<not> (b_y (wallCollision (advance ?b53)) - b_radius (wallCollision (advance ?b53)) < 0
              \<or> (\<exists>g \<in> set (gridBubbles shotTwo). isCollidingWith (wallCollision (advance ?b53)) (heap shotTwo g)))"
    unfolding mv using nc by (auto simp: shotTwo_fields BUBBLE_RADIUS_def)
  have np: "\<not> b_isPopping ?b53" using shotTwo_static(4) by simp
  have "frames (Suc 53) shotTwo = flightState shotTwo ?f (wallCollision (advance ?b53)) (Suc 91)"
    by (rule frames_step_free [OF flight_two shotTwo_fields(1) shotTwo_static(2,3) np miss])
  then show ?thesis unfolding mv by simp
qed

lemma flight_two_back:
  "frames 55 shotTwo
   = flightState shotTwo (Suc shotRef)
       ((heap shotTwo (Suc shotRef))\<lparr> b_x := 13940 / 37, b_y := 1510 / 37, b_vx := - (120 / 37) \<rparr>) 93"
proof -
  let ?f = "Suc shotRef"
  let ?b54 = "(heap shotTwo ?f)\<lparr> b_x := 380, b_y := 1860 / 37, b_vx := - (120 / 37) \<rparr>"
  let ?b55 = "(heap shotTwo ?f)\<lparr> b_x := 13940 / 37, b_y := 1510 / 37, b_vx := - (120 / 37) \<rparr>"
  have mv: "wallCollision (advance ?b54) = ?b55"
    by (simp add: wallCollision_def advance_def Let_def shotTwo_fields BUBBLE_RADIUS_def CANVAS_WIDTH_def)
  have r: "b_radius ?b55 = BUBBLE_RADIUS" by (simp add: shotTwo_fields)
  have nc: "\<not> isCollidingWith ?b55 (heap shotTwo g)" if g: "g \<in> set (gridBubbles shotTwo)" for g
  proof -
    from shotTwo_grid(2) [OF g] have "36 \<le> \<bar>b_x (heap shotTwo g) - 13940 / 37\<bar>" by simp
    then have "(36::real)\<^sup>2 \<le> (b_x (heap shotTwo g) - 13940 / 37)\<^sup>2" by (intro square_ge) simp_all
    then have "1296 \<le> (b_x (heap shotTwo g) - 13940 / 37)\<^sup>2" by simp
    moreover have "400 \<le> (20 - 1510 / 37 :: real)\<^sup>2" by (simp add: power2_eq_square)
    ultimately have "\<not> (b_x (heap shotTwo g) - 13940 / 37)\<^sup>2 + (20 - 1510 / 37 :: real)\<^sup>2 < 1444"
      by linarith
    then show ?thesis
      unfolding isCollidingWith_radius [OF r shotTwo_grid(3) [OF g]]
      by (simp add: shotTwo_grid(1) [OF g])
  qed
  have miss: "\<not> (b_y (wallCollision (advance ?b54)) - b_radius (wallCollision (advance ?b54)) < 0
              \<or> (\<exists>g \<in> set (gridBubbles shotTwo). isCollidingWith (wallCollision (advance ?b54)) (heap shotTwo g)))"
    unfolding mv using nc by (auto simp: shotTwo_fields BUBBLE_RADIUS_def)
  have np: "\<not> b_isPopping ?b54" using shotTwo_static(4) by simp
  have "frames (Suc 54) shotTwo = flightState shotTwo ?f (wallCollision (advance ?b54)) (Suc 92)"
    by (rule frames_step_free [OF flight_two_wall shotTwo_fields(1) shotTwo_static(2,3) np miss])
  then show ?thesis unfolding mv by simp
qed

lemma corner_fields:
  "reachable (frames 55 shotTwo)"
  "flyingBubble (frames 55 shotTwo) = Some (Suc shotRef)"
  "frameRequests (frames 55 shotTwo) = [93]"
  "nextHandle (frames 55 shotTwo) = 94"
  "animationFrameId (frames 55 shotTwo) = 93"
  "gridBubbles (frames 55 shotTwo) = gridBubbles (frames 37 shotOne)"
  "g \<noteq> Suc shotRef \<Longrightarrow> heap (frames 55 shotTwo) g = heap (frames 37 shotOne) g"
  "wallCollision (advance (heap (frames 55 shotTwo) (Suc shotRef)))
     = (heap shotTwo (Suc shotRef))\<lparr> b_x := 13820 / 37, b_y := 1160 / 37, b_vx := - (120 / 37) \<rparr>"
proof -
  show "reachable (frames 55 shotTwo)" by (rule reachable_frames [OF shotTwo_reachable])
  show "flyingBubble (frames 55 shotTwo) = Some (Suc shotRef)" "frameRequests (frames 55 shotTwo) = [93]"
    "nextHandle (frames 55 shotTwo) = 94" "animationFrameId (frames 55 shotTwo) = 93"
    "gridBubbles (frames 55 shotTwo) = gridBubbles (frames 37 shotOne)"
    unfolding flight_two_back by (simp_all add: flightState_fields shotTwo_fields)
  show "heap (frames 55 shotTwo) g = heap (frames 37 shotOne) g" if "g \<noteq> Suc shotRef"
    unfolding flight_two_back using that by (simp add: flightState_fields shotTwo_fields)
  show "wallCollision (advance (heap (frames 55 shotTwo) (Suc shotRef)))
     = (heap shotTwo (Suc shotRef))\<lparr> b_x := 13820 / 37, b_y := 1160 / 37, b_vx := - (120 / 37) \<rparr>"
    unfolding flight_two_back flightState_fields
    by (simp add: wallCollision_def advance_def Let_def shotTwo_fields BUBBLE_RADIUS_def CANVAS_WIDTH_def)
qed

lemma corner_hit:
  "\<exists>g \<in> set (gridBubbles (frames 55 shotTwo)).
     isCollidingWith (wallCollision (advance (heap (frames 55 shotTwo) (Suc shotRef))))
       (heap (frames 55 shotTwo) g)"
proof -
  from after_corner obtain g where g: "g \<in> set (gridBubbles (frames 37 shotOne))"
    "b_x (heap (frames 37 shotOne) g) = 340" "b_y (heap (frames 37 shotOne) g) = 20" by blast
  let ?b56 = "(heap shotTwo (Suc shotRef))\<lparr> b_x := 13820 / 37, b_y := 1160 / 37, b_vx := - (120 / 37) \<rparr>"
  have ne: "g \<noteq> Suc shotRef" by (rule after_grid(4) [OF g(1)])
  have r: "b_radius ?b56 = BUBBLE_RADIUS" by (simp add: shotTwo_fields)
  have "(340 - 13820 / 37 :: real)\<^sup>2 + (20 - 1160 / 37)\<^sup>2 < 1444" by (simp add: power2_eq_square)
  then have "isCollidingWith ?b56 (heap (frames 37 shotOne) g)"
    unfolding isCollidingWith_radius [OF r after_grid(3) [OF g(1)]] by (simp add: g)
  with g(1) ne show ?thesis
    unfolding corner_fields(8) by (intro bexI [of _ g]) (simp_all add: corner_fields)
qed

lemma settle_two: "frames 56 shotTwo = settledState (frames 55 shotTwo) (Suc shotRef) 94"
proof -
  have "frames 56 shotTwo = frames (Suc 55) shotTwo" by simp
  also have "\<dots> = animationFrame (animationFrameId (frames 55 shotTwo)) (frames 55 shotTwo)"
    by (rule frames.simps)
  also have "\<dots> = animationFrame 93 (frames 55 shotTwo)" by (simp only: corner_fields(5))
  also have "\<dots> = settledState (frames 55 shotTwo) (Suc shotRef) (Suc 93)"
    by (rule tick_settle [OF reachable_gameInv reachable_playInv corner_fields(2)])
       (simp_all add: corner_fields(1,3,4) corner_hit)
  finally show ?thesis by simp
qed

lemma corner_landed:
  "Suc shotRef \<in> set (gridBubbles (frames 56 shotTwo))"
  "b_x (heap (frames 56 shotTwo) (Suc shotRef)) = 380"
  "b_y (heap (frames 56 shotTwo) (Suc shotRef)) = 20"
  "b_isGrid (heap (frames 56 shotTwo) (Suc shotRef))"
proof -
  let ?p = "frames 55 shotTwo"
  let ?f = "Suc shotRef"
  have inv: "gameInv ?p" by (rule reachable_gameInv [OF corner_fields(1)])
  have l: "b_x (heap (landed ?f ?p) ?f) = 380" "b_y (heap (landed ?f ?p) ?f) = 20"
    "b_isGrid (heap (landed ?f ?p) ?f)"
    unfolding landed_def Let_def corner_fields(8) by (simp_all add: snap_corner)
  then have low: "b_y (heap (landed ?f ?p) ?f) \<le> BUBBLE_RADIUS * 2" by (simp add: BUBBLE_RADIUS_def)
  have in0: "?f \<in> set (gridBubbles ?p @ [?f])" by simp
  show "?f \<in> set (gridBubbles (frames 56 shotTwo))"
    unfolding settle_two settledState_fields(1) [OF inv corner_fields(2)] using low
    by (simp del: filter_append)
  from settledState_fields(2) [OF inv corner_fields(2) in0, of 94] low
  have "heap (frames 56 shotTwo) ?f = heap (landed ?f ?p) ?f" unfolding settle_two by simp
  with l show "b_x (heap (frames 56 shotTwo) ?f) = 380" "b_y (heap (frames 56 shotTwo) ?f) = 20"
    "b_isGrid (heap (frames 56 shotTwo) ?f)" by simp_all
qed

text \<open>
  C3. In every state that the game can reach, the grid holds each bubble once, every
  grid-member bubble is at the centre of its hex cell, and no two grid-member bubbles
  have the same (row, col) cell. An insertion cannot meet an occupied cell: a flying
  bubble that touched no grid bubble before its move is at least 28 away from every grid
  bubble after it, and the snap moves it by less than that.
\<close>

theorem reachable_grid_cells:
  assumes "reachable s"
  shows "gridOk s"
  using reachable_gameInv [OF assms] by (simp add: gameInv_def)

text \<open>
  An instance after two insertions: the second shot of the run is reflected by the right
  wall, touches the last bubble of the top row in its 56th frame and is inserted into the
  free cell (0, 9), where it stays.
\<close>

theorem reachable_grid_cells_witness:
  "reachable (frames 56 shotTwo) \<and> gridOk (frames 56 shotTwo)
   \<and> Suc shotRef \<in> set (gridBubbles (frames 56 shotTwo))
   \<and> b_isGrid (heap (frames 56 shotTwo) (Suc shotRef))
   \<and> b_x (heap (frames 56 shotTwo) (Suc shotRef)) = 380
   \<and> b_y (heap (frames 56 shotTwo) (Suc shotRef)) = 20
   \<and> cellOf (heap (frames 56 shotTwo) (Suc shotRef)) = (0, 9)"
proof -
  have r: "reachable (frames 56 shotTwo)" by (rule reachable_frames [OF shotTwo_reachable])
  have "cellOf (heap (frames 56 shotTwo) (Suc shotRef)) = (0, 9)"
    by (simp add: cellOf_def corner_landed cell_corner)
  with reachable_grid_cells [OF r] r corner_landed show ?thesis by simp
qed


end
